theory Spec2Isabelle
  imports Complex_Main "HOL-Library.Word"
begin

section \<open>The nRF52840 I2S tone driver (audio\_i2s.h, audio\_i2s.cpp)\<close>

text \<open>
  The driver class \<open>AudioI2S\<close> is embedded as functions on a record of its fields.
  Everything the code does to the outside world is appended, in program order, to a
  trace of effects: register stores, \<open>delay\<close>, \<open>yield\<close>, pin control and serial output.
  Everything the code reads from the outside world (event registers set by the hardware,
  the peripheral's registers where the code reads them back, \<open>millis()\<close>,
  \<open>digitalRead\<close>) is answered by a hardware oracle: the \<open>n\<close>-th volatile read of the
  run gets the value the oracle gives for read number \<open>n\<close>. A busy-wait that the
  hardware never ends has no result (\<open>None\<close>).
\<close>

subsection \<open>Compile-time configuration (audio\_i2s.h)\<close>

definition I2S_SCK_PIN :: "32 word" where "I2S_SCK_PIN = 3"
definition I2S_LRCK_PIN :: "32 word" where "I2S_LRCK_PIN = 28"
definition I2S_SDOUT_PIN :: "32 word" where "I2S_SDOUT_PIN = 2"

definition SAMPLE_RATE :: nat where "SAMPLE_RATE = 16000"
definition AUDIO_BUFFER_SIZE :: nat where "AUDIO_BUFFER_SIZE = 256"
definition MAX_TONE_DURATION_MS :: nat where "MAX_TONE_DURATION_MS = 2000"

subsection \<open>Registers, pins, effects and the hardware oracle\<close>

datatype reg =
    CLOCK_EVENTS_HFCLKSTARTED | CLOCK_TASKS_HFCLKSTART
  | I2S_ENABLE
  | I2S_PSEL_SCK | I2S_PSEL_LRCK | I2S_PSEL_SDOUT | I2S_PSEL_SDIN
  | I2S_EVENTS_RXPTRUPD | I2S_EVENTS_TXPTRUPD | I2S_EVENTS_STOPPED
  | I2S_INTENCLR
  | I2S_CONFIG_MODE | I2S_CONFIG_SWIDTH | I2S_CONFIG_ALIGN | I2S_CONFIG_FORMAT
  | I2S_CONFIG_CHANNELS | I2S_CONFIG_MCKEN | I2S_CONFIG_TXEN | I2S_CONFIG_RXEN
  | I2S_CONFIG_MCKFREQ | I2S_CONFIG_RATIO
  | I2S_TXD_PTR | I2S_RXTXD_MAXCNT
  | I2S_TASKS_START | I2S_TASKS_STOP

text \<open>
  The bit-field constants of the vendor header are kept symbolic: a store writes either a
  literal word or one of these names.
\<close>

datatype regval =
    Lit "32 word"
  | MODE_Master | SWIDTH_16Bit | ALIGN_Left | FORMAT_I2S | CHANNELS_Left
  | MCKEN_Enabled | TXEN_Enabled | RXEN_Disabled
  | MCKFREQ_32MDIV32 | RATIO_64X

datatype pin = SD_MODE_PIN

datatype effect =
    RegWrite reg regval
  | Delay "32 word"
  | Yield
  | PinModeOutput pin
  | DigitalWrite pin bool
  | Print string
  | Println string
  | PrintNum int
  | PrintlnNum int
  | PrintHex "32 word"
  | PrintlnHex "32 word"

datatype port = RegRead reg | Millis | DigitalRead pin

type_synonym hardware = "nat \<Rightarrow> port \<Rightarrow> 32 word"

subsection \<open>The platform's floating-point arithmetic\<close>

text \<open>
  \<open>generateTone\<close> computes in \<open>float\<close> and \<open>double\<close>. A finite floating-point number is a
  real number, and an operation is a function on such numbers; which function is a matter
  of the compiler and the C library, not of the driver, so the operations are a parameter
  that the driver object carries: the quotient of two \<open>float\<close>s, the product of two
  \<open>double\<close>s, the conversion of a \<open>double\<close> to \<open>float\<close>, the sine that the call
  \<open>sin(angle)\<close> resolves to, the product of the amplitude with that sine, and the \<open>double\<close>
  constant \<open>PI\<close>. The conversions of the integers involved (all below \<open>2\<^sup>2\<^sup>4\<close>) to \<open>float\<close>
  and \<open>double\<close>, and of a \<open>float\<close> to \<open>double\<close>, are exact.
\<close>

record fpu =
  float_div :: "real \<Rightarrow> real \<Rightarrow> real"
  double_mul :: "real \<Rightarrow> real \<Rightarrow> real"
  double_to_float :: "real \<Rightarrow> real"
  sin_call :: "real \<Rightarrow> real"
  sample_mul :: "real \<Rightarrow> real \<Rightarrow> real"
  PI :: real

text \<open>
  IEEE 754 arithmetic as an instance: every operation gives the exact result rounded to
  the nearest number of \<open>p\<close> significant bits, a tie going to the even one (the exponent
  range is not modelled: nothing here overflows or is subnormal). \<open>float\<close> has 24
  significant bits and \<open>double\<close> 53. The sine and the product with the amplitude are in
  \<open>double\<close> when the call resolves to \<open>double sin(double)\<close> (\<open>p = 53\<close>) and in \<open>float\<close> when it
  resolves to the \<open>float\<close> overload (\<open>p = 24\<close>). A library sine is not always
  correctly rounded as it is in this instance; the facts about the samples ask no more of
  the arithmetic than the accuracy \<open>fp_accurate\<close> below, which this instance has.
\<close>

definition round_even :: "real \<Rightarrow> int" where
  "round_even x =
     (let n = \<lfloor>x\<rfloor> in
      if x - of_int n < 1 / 2 then n
      else if 1 / 2 < x - of_int n then n + 1
      else if even n then n else n + 1)"

definition round_to :: "nat \<Rightarrow> real \<Rightarrow> real" where
  "round_to p x =
     (if x = 0 then 0
      else (let ulp = 2 powr (of_int \<lfloor>log 2 \<bar>x\<bar>\<rfloor> - real p + 1)
            in of_int (round_even (x / ulp)) * ulp))"

definition ieee_fpu :: "nat \<Rightarrow> fpu" where
  "ieee_fpu p =
     \<lparr>float_div = (\<lambda>a b. round_to 24 (a / b)),
      double_mul = (\<lambda>a b. round_to 53 (a * b)),
      double_to_float = round_to 24,
      sin_call = (\<lambda>x. round_to p (sin x)),
      sample_mul = (\<lambda>a b. round_to p (a * b)),
      PI = round_to 53 pi\<rparr>"

subsection \<open>The driver object\<close>

text \<open>
  \<open>audioBuffer\<close> is the memory at the array's address, cell by cell: cells from
  \<open>AUDIO_BUFFER_SIZE\<close> on lie behind the array, so a store out of bounds would show.
  \<open>firstCall\<close> is the function-local static of \<open>generateTone\<close>; \<open>bufferAddress\<close> is the
  address the array has; \<open>fpu\<close> is the floating-point arithmetic of the platform the
  object lives on; \<open>reads\<close> counts the volatile reads made so far. A new driver is on a
  platform with IEEE arithmetic in \<open>double\<close>; another arithmetic is another value of the
  field.
\<close>

record driver =
  audioBuffer :: "nat \<Rightarrow> 32 word"
  initialized :: bool
  playing :: bool
  firstCall :: bool
  bufferAddress :: "32 word"
  fpu :: fpu
  reads :: nat
  trace :: "effect list"

definition new_driver :: "(nat \<Rightarrow> 32 word) \<Rightarrow> 32 word \<Rightarrow> driver" where
  "new_driver mem addr =
     \<lparr>audioBuffer = mem, initialized = False, playing = False, firstCall = True,
      bufferAddress = addr, fpu = ieee_fpu 53, reads = 0, trace = []\<rparr>"

definition emit :: "effect list \<Rightarrow> driver \<Rightarrow> driver" where
  "emit es s = s\<lparr>trace := trace s @ es\<rparr>"

definition volatile_read :: "hardware \<Rightarrow> port \<Rightarrow> driver \<Rightarrow> 32 word \<times> driver" where
  "volatile_read hw p s = (hw (reads s) p, s\<lparr>reads := Suc (reads s)\<rparr>)"

text \<open>The effects a call added to the trace.\<close>

definition emitted :: "driver \<Rightarrow> driver \<Rightarrow> effect list" where
  "emitted s s' = drop (length (trace s)) (trace s')"

subsection \<open>Arduino core helpers used by the driver\<close>

text \<open>\<open>constrain(amt, low, high)\<close>, \<open>map(x, in_min, in_max, out_min, out_max)\<close> (C division
  of non-negative operands) and \<open>abs\<close>, as the Arduino core defines them.\<close>

definition constrain :: "int \<Rightarrow> int \<Rightarrow> int \<Rightarrow> int" where
  "constrain amt low high = (if amt < low then low else if amt > high then high else amt)"

definition map_long :: "int \<Rightarrow> int \<Rightarrow> int \<Rightarrow> int \<Rightarrow> int \<Rightarrow> int" where
  "map_long x in_min in_max out_min out_max =
     (x - in_min) * (out_max - out_min) div (in_max - in_min) + out_min"

definition abs_int :: "int \<Rightarrow> int" where
  "abs_int x = (if x > 0 then x else - x)"

text \<open>The cast of a floating value to \<open>int16_t\<close>: C discards the fraction (towards zero).\<close>

definition c_trunc :: "real \<Rightarrow> int" where
  "c_trunc x = (if 0 \<le> x then \<lfloor>x\<rfloor> else \<lceil>x\<rceil>)"

subsection \<open>generateTone\<close>

text \<open>
  The sample of index \<open>i\<close>: \<open>t\<close> is a \<open>float\<close> quotient, \<open>angle\<close> is the \<open>double\<close> product
  \<open>2.0 * PI * frequency * t\<close> (multiplied from the left) converted to \<open>float\<close>, and the
  sample is the product of the amplitude with the sine of \<open>angle\<close>, cast to \<open>int16_t\<close>, all
  in the platform's arithmetic. The cast discards the fraction; where the product is
  outside the range of \<open>int16_t\<close> the cast has no defined result in C, here the integer
  wraps. The loop counter is a \<open>uint16_t\<close> that stays below 256, so it is a \<open>nat\<close>.
\<close>

definition tone_angle :: "fpu \<Rightarrow> 16 word \<Rightarrow> nat \<Rightarrow> real" where
  "tone_angle fp frequency i =
     (let t = float_div fp (real i) (real SAMPLE_RATE)
      in double_to_float fp
           (double_mul fp (double_mul fp (double_mul fp 2 (PI fp)) (real (unat frequency))) t))"

definition tone_sample :: "fpu \<Rightarrow> 16 word \<Rightarrow> 16 word \<Rightarrow> nat \<Rightarrow> 16 word" where
  "tone_sample fp amplitude frequency i =
     (let angle = tone_angle fp frequency i
      in word_of_int
           (c_trunc (sample_mul fp (real_of_int (sint amplitude)) (sin_call fp angle))))"

definition sample_debug :: "nat \<Rightarrow> 16 word \<Rightarrow> 32 word \<Rightarrow> effect list" where
  "sample_debug i sample packed =
     [Print ''Sample index '', PrintNum (int i), Print '' raw=0x'',
      PrintHex (ucast sample), Print '' ('', PrintNum (sint sample), Print '')'',
      Print '' packed=0x'', PrintlnHex packed]"

function generateTone_loop ::
  "16 word \<Rightarrow> 16 word \<Rightarrow> 16 word \<Rightarrow> nat \<Rightarrow> 16 word \<Rightarrow> driver \<Rightarrow> 16 word \<times> driver" where
  "generateTone_loop frequency samples amplitude i peakSample s =
     (if i < unat samples \<and> i < AUDIO_BUFFER_SIZE then
        let sample = tone_sample (fpu s) amplitude frequency i;
            peakSample' = (if abs_int (sint sample) > abs_int (sint peakSample)
                           then sample else peakSample);
            s1 = s\<lparr>audioBuffer := (audioBuffer s)(i := ucast sample)\<rparr>;
            s2 = (if i < 4 then emit (sample_debug i sample (audioBuffer s1 i)) s1 else s1)
        in generateTone_loop frequency samples amplitude (Suc i) peakSample' s2
      else (peakSample, s))"
  by pat_completeness auto
termination
  by (relation "measure (\<lambda>(f, n, a, i, p, s). AUDIO_BUFFER_SIZE - i)") auto

definition generateTone :: "16 word \<Rightarrow> 16 word \<Rightarrow> 8 word \<Rightarrow> driver \<Rightarrow> driver" where
  "generateTone frequency samples volume s =
     (let volume' = constrain (uint volume) 0 100;
          amplitude = (word_of_int (map_long volume' 0 100 0 32767) :: 16 word);
          s1 = (if firstCall s
                then (emit [Println ''\<newline>=== AUDIO GENERATION DEBUG ==='',
                            Print ''Volume: '', PrintNum volume', Println ''%'',
                            Print ''Target amplitude: '', PrintlnNum (sint amplitude),
                            Print ''Max possible: 32767 (using '',
                            PrintNum (sint amplitude * 100 div 32767), Println ''%)''] s)
                     \<lparr>firstCall := False\<rparr>
                else s);
          (peakSample, s2) = generateTone_loop frequency samples amplitude 0 0 s1
      in emit [Print ''Peak sample: '', PrintNum (sint peakSample), Print '' ('',
               PrintNum (abs_int (sint peakSample) * 100 div 32767),
               Println ''% of max)''] s2)"

subsection \<open>startTransfer\<close>

definition startTransfer :: "16 word \<Rightarrow> driver \<Rightarrow> driver" where
  "startTransfer sampleCount s =
     emit [RegWrite I2S_TXD_PTR (Lit (bufferAddress s)),
           RegWrite I2S_RXTXD_MAXCNT (Lit (ucast sampleCount)),
           Print ''Starting I2S transfer: '', PrintNum (uint sampleCount),
           Print '' samples, buffer @ 0x'', PrintlnHex (bufferAddress s),
           RegWrite I2S_EVENTS_TXPTRUPD (Lit 0),
           RegWrite I2S_EVENTS_STOPPED (Lit 0),
           RegWrite I2S_TASKS_START (Lit 1)] s"

subsection \<open>waitForCompletion\<close>

definition expectedDurationMs :: "16 word \<Rightarrow> 32 word" where
  "expectedDurationMs sampleCount =
     (let e = (ucast sampleCount * 1000) div word_of_nat SAMPLE_RATE
      in if e = 0 then 1 else e)"

text \<open>
  The two bounded busy-wait loops of \<open>waitForCompletion\<close> have the same shape; they
  differ in the event register and in the message. \<open>poll_event\<close> is that loop: it answers
  \<open>True\<close> when the loop condition ends the loop (the event register read non-zero) and
  \<open>False\<close> when the body took its \<open>return\<close> after the deadline, diagnostics printed.
  A loop that never ends has no value (\<open>None\<close>).
\<close>

partial_function (option) poll_event ::
  "hardware \<Rightarrow> reg \<Rightarrow> string \<Rightarrow> 32 word \<Rightarrow> driver \<Rightarrow> (bool \<times> driver) option" where
  "poll_event hw r msg timeout s =
     (let (ev, s1) = volatile_read hw (RegRead r) s in
      if ev = 0 then
        (let (now, s2) = volatile_read hw Millis s1 in
         if now > timeout then
           (let (en, s3) = volatile_read hw (RegRead I2S_ENABLE)
                             (emit [Println msg, Print ''I2S ENABLE: ''] s2)
            in Some (False, emit [PrintlnNum (uint en)] s3))
         else poll_event hw r msg timeout (emit [Yield] s2))
      else Some (True, s1))"

definition waitForCompletion :: "hardware \<Rightarrow> 16 word \<Rightarrow> driver \<Rightarrow> driver option" where
  "waitForCompletion hw sampleCount s =
     (let expected = expectedDurationMs sampleCount;
          (t0, s1) = volatile_read hw Millis s
      in case poll_event hw I2S_EVENTS_TXPTRUPD ''ERROR: I2S TXPTRUPD timeout!'' (t0 + 50) s1 of
           None \<Rightarrow> None
         | Some (False, s2) \<Rightarrow> Some s2
         | Some (True, s2) \<Rightarrow>
             (let s3 = emit [RegWrite I2S_EVENTS_TXPTRUPD (Lit 0),
                             Delay (expected + 1),
                             Print ''Chunk playback ms: '', PrintlnNum (uint expected),
                             RegWrite I2S_TASKS_STOP (Lit 1)] s2;
                  (t1, s4) = volatile_read hw Millis s3
              in case poll_event hw I2S_EVENTS_STOPPED ''ERROR: I2S STOPPED timeout!''
                        (t1 + 100) s4 of
                   None \<Rightarrow> None
                 | Some (False, s5) \<Rightarrow> Some s5
                 | Some (True, s5) \<Rightarrow>
                     Some (emit [RegWrite I2S_EVENTS_STOPPED (Lit 0),
                                 Println ''I2S chunk complete''] s5)))"

subsection \<open>playTone and playMelody\<close>

definition chunk_of :: "32 word \<Rightarrow> 16 word" where
  "chunk_of totalSamples = ucast (min totalSamples (word_of_nat AUDIO_BUFFER_SIZE))"

function playTone_loop ::
  "hardware \<Rightarrow> 16 word \<Rightarrow> 8 word \<Rightarrow> 32 word \<Rightarrow> driver \<Rightarrow> driver option" where
  "playTone_loop hw frequency volume totalSamples s =
     (if totalSamples > 0 then
        (let chunkSize = chunk_of totalSamples in
         case waitForCompletion hw chunkSize
                (startTransfer chunkSize (generateTone frequency chunkSize volume s)) of
           None \<Rightarrow> None
         | Some s' \<Rightarrow> playTone_loop hw frequency volume (totalSamples - ucast chunkSize) s')
      else Some s)"
  by pat_completeness auto

termination
proof (relation "measure (\<lambda>(hw, f, v, totalSamples, s). unat totalSamples)")
  show "wf (measure (\<lambda>(hw, f, v, totalSamples, s). unat (totalSamples :: 32 word)))"
    by simp
next
  fix hw :: hardware and frequency :: "16 word" and volume :: "8 word"
    and totalSamples :: "32 word" and s s' :: driver and chunkSize :: "16 word"
  assume pos: "0 < totalSamples" and chunk: "chunkSize = chunk_of totalSamples"
  have "unat (min totalSamples (256 :: 32 word)) = min (unat totalSamples) 256"
    by (simp add: min_def word_le_nat_alt)
  moreover have "take_bit 16 (min (unat totalSamples) 256) = min (unat totalSamples) 256"
    by (rule take_bit_nat_eq_self) (simp add: min_def)
  ultimately have small: "unat chunkSize = min (unat totalSamples) 256"
    by (simp add: chunk chunk_of_def AUDIO_BUFFER_SIZE_def unsigned_ucast_eq)
  have "take_bit 32 (min (unat totalSamples) 256) = min (unat totalSamples) 256"
    by (rule take_bit_nat_eq_self) (simp add: min_def)
  then have "unat (ucast chunkSize :: 32 word) = min (unat totalSamples) 256"
    by (simp add: unsigned_ucast_eq small)
  then have "unat (totalSamples - ucast chunkSize) < unat totalSamples"
    using pos by (simp add: unat_sub_if' word_less_nat_alt min_def)
  then show "((hw, frequency, volume, totalSamples - ucast chunkSize, s'),
              (hw, frequency, volume, totalSamples, s))
             \<in> measure (\<lambda>(hw, f, v, totalSamples, s). unat totalSamples)"
    by simp
qed

definition playTone ::
  "hardware \<Rightarrow> 16 word \<Rightarrow> 16 word \<Rightarrow> 8 word \<Rightarrow> driver \<Rightarrow> driver option" where
  "playTone hw frequency duration_ms volume s =
     (if \<not> initialized s then Some (emit [Println ''ERROR: I2S not initialized''] s)
      else
        (let duration_ms' =
               (word_of_int (constrain (uint duration_ms) 1 (int MAX_TONE_DURATION_MS))
                  :: 16 word);
             totalSamples = ((word_of_nat SAMPLE_RATE * ucast duration_ms') div 1000 :: 32 word);
             s1 = emit [Print ''Playing tone: '', PrintNum (uint frequency),
                        Print '' Hz for '', PrintNum (uint duration_ms'),
                        Print '' ms at volume '', PrintlnNum (uint volume)] s;
             s2 = s1\<lparr>playing := True\<rparr>
         in case playTone_loop hw frequency volume totalSamples s2 of
              None \<Rightarrow> None
            | Some s3 \<Rightarrow> Some (s3\<lparr>playing := False\<rparr>)))"

text \<open>
  The arrays \<open>frequencies\<close> and \<open>durations\<close> are pointers: cell \<open>i\<close> is whatever lies at
  that offset. The counter is a \<open>uint8_t\<close> below \<open>count\<close>, so it does not wrap.
\<close>

function playMelody_loop ::
  "hardware \<Rightarrow> (nat \<Rightarrow> 16 word) \<Rightarrow> (nat \<Rightarrow> 16 word) \<Rightarrow> 8 word \<Rightarrow> 8 word \<Rightarrow> nat \<Rightarrow> driver
     \<Rightarrow> driver option" where
  "playMelody_loop hw frequencies durations count volume i s =
     (if i < unat count then
        (case playTone hw (frequencies i) (durations i) volume s of
           None \<Rightarrow> None
         | Some s' \<Rightarrow>
             playMelody_loop hw frequencies durations count volume (Suc i)
               (emit [Delay 20] s'))
      else Some s)"
  by pat_completeness auto
termination
  by (relation "measure (\<lambda>(hw, fs, ds, count, v, i, s). unat count - i)") auto

definition playMelody ::
  "hardware \<Rightarrow> (nat \<Rightarrow> 16 word) \<Rightarrow> (nat \<Rightarrow> 16 word) \<Rightarrow> 8 word \<Rightarrow> 8 word \<Rightarrow> driver
     \<Rightarrow> driver option" where
  "playMelody hw frequencies durations count volume s =
     playMelody_loop hw frequencies durations count volume 0 s"

definition isPlaying :: "driver \<Rightarrow> bool" where
  "isPlaying s = playing s"

subsection \<open>configureI2S and begin\<close>

text \<open>The wait for the high-frequency clock has no deadline: it ends only when the event
  register reads non-zero. The method \<open>begin\<close> is \<open>begin_driver\<close> here; \<open>SD_MODE_PIN\<close>
  is defined, so its branch of the conditional compilation is the one taken.\<close>

partial_function (option) wait_hfclk :: "hardware \<Rightarrow> driver \<Rightarrow> driver option" where
  "wait_hfclk hw s =
     (let (ev, s1) = volatile_read hw (RegRead CLOCK_EVENTS_HFCLKSTARTED) s in
      if ev = 0 then wait_hfclk hw s1 else Some s1)"

definition configureI2S :: "hardware \<Rightarrow> driver \<Rightarrow> driver option" where
  "configureI2S hw s =
     (case wait_hfclk hw
             (emit [RegWrite CLOCK_EVENTS_HFCLKSTARTED (Lit 0),
                    RegWrite CLOCK_TASKS_HFCLKSTART (Lit 1)] s) of
        None \<Rightarrow> None
      | Some s1 \<Rightarrow>
          (let s2 = emit [RegWrite CLOCK_EVENTS_HFCLKSTARTED (Lit 0),
                          RegWrite I2S_ENABLE (Lit 0),
                          Delay 10,
                          RegWrite I2S_PSEL_SCK (Lit 0xFFFFFFFF),
                          RegWrite I2S_PSEL_LRCK (Lit 0xFFFFFFFF),
                          RegWrite I2S_PSEL_SDOUT (Lit 0xFFFFFFFF),
                          RegWrite I2S_PSEL_SDIN (Lit 0xFFFFFFFF),
                          RegWrite I2S_EVENTS_RXPTRUPD (Lit 0),
                          RegWrite I2S_EVENTS_TXPTRUPD (Lit 0),
                          RegWrite I2S_EVENTS_STOPPED (Lit 0),
                          RegWrite I2S_INTENCLR (Lit 0xFFFFFFFF),
                          Delay 10,
                          RegWrite I2S_PSEL_SCK (Lit I2S_SCK_PIN),
                          RegWrite I2S_PSEL_LRCK (Lit I2S_LRCK_PIN),
                          RegWrite I2S_PSEL_SDOUT (Lit I2S_SDOUT_PIN),
                          RegWrite I2S_CONFIG_MODE MODE_Master,
                          RegWrite I2S_CONFIG_SWIDTH SWIDTH_16Bit,
                          RegWrite I2S_CONFIG_ALIGN ALIGN_Left,
                          RegWrite I2S_CONFIG_FORMAT FORMAT_I2S,
                          RegWrite I2S_CONFIG_CHANNELS CHANNELS_Left,
                          RegWrite I2S_CONFIG_MCKEN MCKEN_Enabled,
                          RegWrite I2S_CONFIG_TXEN TXEN_Enabled,
                          RegWrite I2S_CONFIG_RXEN RXEN_Disabled,
                          RegWrite I2S_CONFIG_MCKFREQ MCKFREQ_32MDIV32,
                          RegWrite I2S_CONFIG_RATIO RATIO_64X,
                          RegWrite I2S_ENABLE (Lit 1),
                          Delay 10,
                          Println ''I2S configured with GPIO pin numbers (3, 28, 2) and Master mode'',
                          Print ''CONFIG.TXEN: ''] s1;
               (txen, s3) = volatile_read hw (RegRead I2S_CONFIG_TXEN) s2;
               s4 = emit [PrintlnNum (uint txen), Print ''CONFIG.ALIGN: ''] s3;
               (align, s5) = volatile_read hw (RegRead I2S_CONFIG_ALIGN) s4
           in Some (emit [PrintlnNum (uint align)] s5)))"

definition begin_driver :: "hardware \<Rightarrow> driver \<Rightarrow> (bool \<times> driver) option" where
  "begin_driver hw s =
     (if initialized s then Some (True, emit [Println ''I2S already initialized''] s)
      else
        (case configureI2S hw (emit [Println ''Configuring I2S peripheral...''] s) of
           None \<Rightarrow> None
         | Some s1 \<Rightarrow>
             (let s2 = emit [PinModeOutput SD_MODE_PIN, DigitalWrite SD_MODE_PIN True,
                             Delay 10, Print ''SD_MODE pin (D6) state: ''] s1;
                  (level, s3) = volatile_read hw (DigitalRead SD_MODE_PIN) s2;
                  s4 = emit [Println (if level \<noteq> 0 then ''HIGH (amplifier enabled)''
                                      else ''LOW (amplifier disabled!)'')] s3;
                  s5 = s4\<lparr>initialized := True\<rparr>
              in Some (True, emit [Println ''I2S initialized successfully'',
                                   Print ''Sample Rate: '', PrintNum (int SAMPLE_RATE),
                                   Println '' Hz''] s5))))"

subsection \<open>stop, suspend and resume\<close>

partial_function (option) wait_stopped :: "hardware \<Rightarrow> driver \<Rightarrow> driver option" where
  "wait_stopped hw s =
     (let (ev, s1) = volatile_read hw (RegRead I2S_EVENTS_STOPPED) s in
      if ev = 0 then wait_stopped hw (emit [Yield] s1) else Some s1)"

definition stop :: "hardware \<Rightarrow> driver \<Rightarrow> driver option" where
  "stop hw s =
     (if \<not> initialized s then Some s
      else case wait_stopped hw (emit [RegWrite I2S_TASKS_STOP (Lit 1)] s) of
             None \<Rightarrow> None
           | Some s1 \<Rightarrow> Some (s1\<lparr>playing := False\<rparr>))"

definition suspend :: "hardware \<Rightarrow> driver \<Rightarrow> driver option" where
  "suspend hw s =
     (if \<not> initialized s then Some s
      else case stop hw (emit [Println ''Suspending I2S for power saving''] s) of
             None \<Rightarrow> None
           | Some s1 \<Rightarrow>
               Some (emit [RegWrite I2S_ENABLE (Lit 0), DigitalWrite SD_MODE_PIN False] s1))"

definition resume :: "driver \<Rightarrow> driver" where
  "resume s =
     (if \<not> initialized s then s
      else emit [Println ''Resuming I2S'', DigitalWrite SD_MODE_PIN True, Delay 10,
                 RegWrite I2S_ENABLE (Lit 1)] s)"

subsection \<open>Reading a trace\<close>

text \<open>The values stored to one register, in order; the delays, in order; and the kinds
  of effect.\<close>

definition writes_to :: "reg \<Rightarrow> effect list \<Rightarrow> regval list" where
  "writes_to r es =
     concat (map (\<lambda>e. case e of RegWrite r' v \<Rightarrow> if r' = r then [v] else [] | _ \<Rightarrow> []) es)"

definition delays :: "effect list \<Rightarrow> 32 word list" where
  "delays es = concat (map (\<lambda>e. case e of Delay d \<Rightarrow> [d] | _ \<Rightarrow> []) es)"

definition is_reg_write :: "effect \<Rightarrow> bool" where
  "is_reg_write e = (case e of RegWrite r v \<Rightarrow> True | _ \<Rightarrow> False)"

definition is_serial :: "effect \<Rightarrow> bool" where
  "is_serial e =
     (case e of Print x \<Rightarrow> True | Println x \<Rightarrow> True | PrintNum n \<Rightarrow> True
      | PrintlnNum n \<Rightarrow> True | PrintHex w \<Rightarrow> True | PrintlnHex w \<Rightarrow> True | _ \<Rightarrow> False)"

text \<open>Serial output other than the line that announces a tone.\<close>

definition is_debug :: "effect \<Rightarrow> bool" where
  "is_debug e = (is_serial e \<and> e \<noteq> Print ''Playing tone: '')"

subsection \<open>When the hardware lets a bounded wait end\<close>

text \<open>
  A bounded wait that starts at volatile read number \<open>n\<close> reads the event register at
  \<open>n\<close>, \<open>n + 2\<close>, ... and the clock at \<open>n + 1\<close>, \<open>n + 3\<close>, ... It ends in round \<open>k\<close> when the
  event register reads non-zero there or the clock reads past the deadline.
\<close>

definition exits_at :: "hardware \<Rightarrow> reg \<Rightarrow> 32 word \<Rightarrow> nat \<Rightarrow> nat \<Rightarrow> bool" where
  "exits_at hw r timeout n k =
     (hw (n + 2 * k) (RegRead r) \<noteq> 0 \<or> timeout < hw (n + 2 * k + 1) Millis)"

text \<open>Every bounded wait of the driver ends: whatever the deadline and wherever the wait
  starts, the buffer-fetched event and the stopped event are seen, or the clock is read
  past the deadline, after finitely many rounds.\<close>

definition bounded_waits_end :: "hardware \<Rightarrow> bool" where
  "bounded_waits_end hw =
     (\<forall>timeout n. (\<exists>k. exits_at hw I2S_EVENTS_TXPTRUPD timeout n k)
                   \<and> (\<exists>k. exits_at hw I2S_EVENTS_STOPPED timeout n k))"

text \<open>Rounds \<open>0 .. k - 1\<close> of such a wait go round the loop: the event register reads zero
  and the clock has not passed the deadline.\<close>

definition spins :: "hardware \<Rightarrow> reg \<Rightarrow> 32 word \<Rightarrow> nat \<Rightarrow> nat \<Rightarrow> bool" where
  "spins hw r timeout n k =
     (\<forall>j<k. hw (n + 2 * j) (RegRead r) = 0 \<and> hw (n + 2 * j + 1) Millis \<le> timeout)"

subsection \<open>Auxiliary notions for the statements\<close>

text \<open>What a call leaves alone: the driver's flags and the buffer's address.\<close>

definition same_flags :: "driver \<Rightarrow> driver \<Rightarrow> bool" where
  "same_flags s s' =
     (initialized s' = initialized s \<and> playing s' = playing s
      \<and> bufferAddress s' = bufferAddress s)"

text \<open>One round of the sample loop: the state after the body.\<close>

definition sample_step :: "16 word \<Rightarrow> 16 word \<Rightarrow> nat \<Rightarrow> driver \<Rightarrow> driver" where
  "sample_step f a i s =
     (let s1 = s\<lparr>audioBuffer := (audioBuffer s)(i := ucast (tone_sample (fpu s) a f i))\<rparr>
      in if i < 4 then emit (sample_debug i (tone_sample (fpu s) a f i) (audioBuffer s1 i)) s1 else s1)"

text \<open>The amplitude \<open>generateTone\<close> computes from a volume, and the signed 16-bit value
  that the low half of a buffer cell holds.\<close>

definition volume_amplitude :: "8 word \<Rightarrow> 16 word" where
  "volume_amplitude volume = word_of_int (map_long (constrain (uint volume) 0 100) 0 100 0 32767)"

definition stored_sample :: "32 word \<Rightarrow> int" where
  "stored_sample cell = sint (ucast cell :: 16 word)"

text \<open>What the specification says a sample is: the linear map of the clamped volume onto
  0 .. 32767 times the sine, rounded to the nearest integer.\<close>

definition spec_amplitude :: "8 word \<Rightarrow> real" where
  "spec_amplitude volume = real_of_int (constrain (uint volume) 0 100) / 100 * 32767"

definition spec_sample :: "8 word \<Rightarrow> 16 word \<Rightarrow> nat \<Rightarrow> int" where
  "spec_sample volume frequency i =
     round (spec_amplitude volume * sin (2 * pi * real (unat frequency) * real i / real SAMPLE_RATE))"

text \<open>The accuracy asked of the platform's arithmetic: every operation is within the
  relative error \<open>2\<^sup>-\<^sup>2\<^sup>2\<close> of the exact result (the sine: within that absolute error), which
  holds of correctly rounded \<open>float\<close> and \<open>double\<close> operations and of a library sine good
  to two units in the last place of a \<open>float\<close>.\<close>

definition fp_eps :: real where
  "fp_eps = 1 / 2 ^ 22"

definition fp_accurate :: "fpu \<Rightarrow> bool" where
  "fp_accurate fp =
     ((\<forall>a b. b \<noteq> 0 \<longrightarrow> \<bar>float_div fp a b - a / b\<bar> \<le> fp_eps * \<bar>a / b\<bar>)
      \<and> (\<forall>a b. \<bar>double_mul fp a b - a * b\<bar> \<le> fp_eps * \<bar>a * b\<bar>)
      \<and> (\<forall>x. \<bar>double_to_float fp x - x\<bar> \<le> fp_eps * \<bar>x\<bar>)
      \<and> (\<forall>x. \<bar>sin_call fp x - sin x\<bar> \<le> fp_eps)
      \<and> (\<forall>a b. \<bar>sample_mul fp a b - a * b\<bar> \<le> fp_eps * \<bar>a * b\<bar>)
      \<and> \<bar>PI fp - pi\<bar> \<le> fp_eps * pi)"

text \<open>The angle and the product in exact arithmetic, and an approximation that is \<open>k\<close>
  roundings away from a non-negative exact value.\<close>

definition exact_angle :: "16 word \<Rightarrow> nat \<Rightarrow> real" where
  "exact_angle frequency i = 2 * pi * real (unat frequency) * (real i / real SAMPLE_RATE)"

definition rounded :: "nat \<Rightarrow> real \<Rightarrow> real \<Rightarrow> bool" where
  "rounded k a x = (x * (1 - fp_eps) ^ k \<le> a \<and> a \<le> x * (1 + fp_eps) ^ k)"

text \<open>The diagnostics of a wait that ran past its deadline, and the effects of one
  \<open>waitForCompletion\<close> by the way it ended: the first wait timed out after \<open>k\<close> yields;
  the second wait timed out; both events were seen.\<close>

definition timeout_report :: "string \<Rightarrow> int \<Rightarrow> effect list" where
  "timeout_report msg en = [Println msg, Print ''I2S ENABLE: '', PrintlnNum en]"

definition chunk_wait :: "16 word \<Rightarrow> effect list" where
  "chunk_wait sampleCount =
     [RegWrite I2S_EVENTS_TXPTRUPD (Lit 0),
      Delay (expectedDurationMs sampleCount + 1),
      Print ''Chunk playback ms: '', PrintlnNum (uint (expectedDurationMs sampleCount)),
      RegWrite I2S_TASKS_STOP (Lit 1)]"

datatype wait_outcome = TxTimeout nat int | StopTimeout nat nat int | Completed nat nat

fun wait_effects :: "16 word \<Rightarrow> wait_outcome \<Rightarrow> effect list" where
  "wait_effects n (TxTimeout k en) =
     replicate k Yield @ timeout_report ''ERROR: I2S TXPTRUPD timeout!'' en"
| "wait_effects n (StopTimeout k k2 en) =
     replicate k Yield @ chunk_wait n @ replicate k2 Yield
       @ timeout_report ''ERROR: I2S STOPPED timeout!'' en"
| "wait_effects n (Completed k k2) =
     replicate k Yield @ chunk_wait n @ replicate k2 Yield
       @ [RegWrite I2S_EVENTS_STOPPED (Lit 0), Println ''I2S chunk complete'']"

text \<open>What the specification says the expected duration is: the ceiling of
  \<open>sampleCount \<sqdot> 1000 / sampleRate\<close>, at least 1.\<close>

definition spec_expectedDurationMs :: "16 word \<Rightarrow> nat" where
  "spec_expectedDurationMs sampleCount =
     max 1 (nat \<lceil>real (unat sampleCount) * 1000 / real SAMPLE_RATE\<rceil>)"

text \<open>Two hardware oracles for concrete runs: one whose events never fire while the clock
  advances by 10 ms per volatile read, and one where every volatile read yields 1 (every
  event is seen at once).\<close>

definition stalled_hw :: hardware where
  "stalled_hw n p = (case p of Millis \<Rightarrow> of_nat (10 * n) | _ \<Rightarrow> 0)"

definition prompt_hw :: hardware where
  "prompt_hw n p = 1"

text \<open>The duration \<open>playTone\<close> works with after \<open>constrain\<close>, and the sample count it
  computes from it.\<close>

definition clamped_duration :: "16 word \<Rightarrow> 16 word" where
  "clamped_duration duration_ms =
     word_of_int (constrain (uint duration_ms) 1 (int MAX_TONE_DURATION_MS))"

definition total_samples :: "16 word \<Rightarrow> 32 word" where
  "total_samples duration_ms =
     (word_of_nat SAMPLE_RATE * ucast (clamped_duration duration_ms)) div 1000"

text \<open>The chunk sizes the specification describes: while samples remain, take the smaller
  of the remaining count and the capacity.\<close>

function chunk_list :: "nat \<Rightarrow> nat list" where
  "chunk_list remaining =
     (if remaining = 0 then []
      else min remaining AUDIO_BUFFER_SIZE
             # chunk_list (remaining - min remaining AUDIO_BUFFER_SIZE))"
  by pat_completeness auto
termination
  by (relation "measure id") (auto simp: AUDIO_BUFFER_SIZE_def)

text \<open>The loop body (synthesize, start, await) run once for each chunk size of a list.\<close>

fun run_chunks :: "hardware \<Rightarrow> 16 word \<Rightarrow> 8 word \<Rightarrow> 16 word list \<Rightarrow> driver \<Rightarrow> driver option" where
  "run_chunks hw frequency volume [] s = Some s"
| "run_chunks hw frequency volume (chunkSize # rest) s =
     (case waitForCompletion hw chunkSize
             (startTransfer chunkSize (generateTone frequency chunkSize volume s)) of
        None \<Rightarrow> None
      | Some s' \<Rightarrow> run_chunks hw frequency volume rest s')"

text \<open>The effects of one \<open>startTransfer\<close>, for a buffer at the given address.\<close>

definition start_effects :: "16 word \<Rightarrow> 32 word \<Rightarrow> effect list" where
  "start_effects sampleCount addr =
     [RegWrite I2S_TXD_PTR (Lit addr),
      RegWrite I2S_RXTXD_MAXCNT (Lit (ucast sampleCount)),
      Print ''Starting I2S transfer: '', PrintNum (uint sampleCount),
      Print '' samples, buffer @ 0x'', PrintlnHex addr,
      RegWrite I2S_EVENTS_TXPTRUPD (Lit 0),
      RegWrite I2S_EVENTS_STOPPED (Lit 0),
      RegWrite I2S_TASKS_START (Lit 1)]"

text \<open>What one round of the chunk loop adds to the trace.\<close>

definition chunk_round :: "16 word \<Rightarrow> effect list \<Rightarrow> bool" where
  "chunk_round c out =
     (writes_to I2S_RXTXD_MAXCNT out = [Lit (ucast c)]
      \<and> writes_to I2S_TASKS_START out = [Lit 1]
      \<and> Delay 20 \<notin> set out
      \<and> Print ''Playing tone: '' \<notin> set out)"

text \<open>What the whole chunk loop adds to the trace, for a list of chunk sizes.\<close>

definition chunk_rounds :: "nat list \<Rightarrow> effect list \<Rightarrow> bool" where
  "chunk_rounds cs out =
     (writes_to I2S_RXTXD_MAXCNT out = map (\<lambda>c. Lit (of_nat c)) cs
      \<and> writes_to I2S_TASKS_START out = replicate (length cs) (Lit 1)
      \<and> Delay 20 \<notin> set out
      \<and> Print ''Playing tone: '' \<notin> set out)"

text \<open>The line \<open>playTone\<close> prints before it starts.\<close>

definition announce :: "16 word \<Rightarrow> 16 word \<Rightarrow> 8 word \<Rightarrow> effect list" where
  "announce frequency duration_ms volume =
     [Print ''Playing tone: '', PrintNum (uint frequency), Print '' Hz for '',
      PrintNum (uint (clamped_duration duration_ms)), Print '' ms at volume '',
      PrintlnNum (uint volume)]"

text \<open>An initialized driver (the flags as \<open>begin\<close> leaves them) with an empty trace.\<close>

definition ready_driver :: driver where
  "ready_driver = (new_driver (\<lambda>i. 0) 0)\<lparr>initialized := True\<rparr>"

text \<open>The oracle shows the high-frequency clock as started at some volatile read from
  read number \<open>n\<close> on.\<close>

definition clock_starts :: "hardware \<Rightarrow> nat \<Rightarrow> bool" where
  "clock_starts hw n = (\<exists>k. hw (n + k) (RegRead CLOCK_EVENTS_HFCLKSTARTED) \<noteq> 0)"

text \<open>The states the driver can be in between two calls of its public operations, on one
  hardware oracle.\<close>

inductive reachable :: "hardware \<Rightarrow> driver \<Rightarrow> bool" for hw :: hardware where
  fresh: "reachable hw ((new_driver mem addr)\<lparr>fpu := fp\<rparr>)"
| after_begin: "reachable hw s \<Longrightarrow> begin_driver hw s = Some (ok, s') \<Longrightarrow> reachable hw s'"
| after_playTone: "reachable hw s \<Longrightarrow> playTone hw f d v s = Some s' \<Longrightarrow> reachable hw s'"
| after_playMelody:
    "reachable hw s \<Longrightarrow> playMelody hw fs ds n v s = Some s' \<Longrightarrow> reachable hw s'"
| after_stop: "reachable hw s \<Longrightarrow> stop hw s = Some s' \<Longrightarrow> reachable hw s'"
| after_suspend: "reachable hw s \<Longrightarrow> suspend hw s = Some s' \<Longrightarrow> reachable hw s'"
| after_resume: "reachable hw s \<Longrightarrow> reachable hw (resume s)"

text \<open>A melody of two notes, 440 Hz and 880 Hz, 1 ms each: the arrays \<open>frequencies\<close>
  and \<open>durations\<close>.\<close>

definition two_notes :: "nat \<Rightarrow> 16 word" where
  "two_notes i = (if i = 0 then 440 else 880)"

definition short_notes :: "nat \<Rightarrow> 16 word" where
  "short_notes i = 1"

section \<open>Facts about the operations\<close>

lemma emit_fields [simp]:
  "trace (emit es s) = trace s @ es"
  "audioBuffer (emit es s) = audioBuffer s"
  "initialized (emit es s) = initialized s"
  "playing (emit es s) = playing s"
  "firstCall (emit es s) = firstCall s"
  "bufferAddress (emit es s) = bufferAddress s"
  "fpu (emit es s) = fpu s"
  "reads (emit es s) = reads s"
  by (simp_all add: emit_def)

lemma volatile_read_fields [simp]:
  "fst (volatile_read hw p s) = hw (reads s) p"
  "trace (snd (volatile_read hw p s)) = trace s"
  "audioBuffer (snd (volatile_read hw p s)) = audioBuffer s"
  "initialized (snd (volatile_read hw p s)) = initialized s"
  "playing (snd (volatile_read hw p s)) = playing s"
  "firstCall (snd (volatile_read hw p s)) = firstCall s"
  "bufferAddress (snd (volatile_read hw p s)) = bufferAddress s"
  "fpu (snd (volatile_read hw p s)) = fpu s"
  "reads (snd (volatile_read hw p s)) = Suc (reads s)"
  by (simp_all add: volatile_read_def)

declare generateTone_loop.simps [simp del]

declare playTone_loop.simps [simp del]

declare playMelody_loop.simps [simp del]

lemma generateTone_loop_step:
  "i < unat n \<Longrightarrow> i < AUDIO_BUFFER_SIZE \<Longrightarrow>
   generateTone_loop f n a i p s =
     generateTone_loop f n a (Suc i)
       (if abs_int (sint (tone_sample (fpu s) a f i)) > abs_int (sint p) then tone_sample (fpu s) a f i else p)
       (sample_step f a i s)"
  by (subst generateTone_loop.simps) (simp add: Let_def sample_step_def)

lemma generateTone_loop_done:
  "\<not> (i < unat n \<and> i < AUDIO_BUFFER_SIZE) \<Longrightarrow> generateTone_loop f n a i p s = (p, s)"
  by (subst generateTone_loop.simps) (rule if_not_P)

lemma sample_step_fields [simp]:
  "initialized (sample_step f a i s) = initialized s"
  "playing (sample_step f a i s) = playing s"
  "firstCall (sample_step f a i s) = firstCall s"
  "bufferAddress (sample_step f a i s) = bufferAddress s"
  "fpu (sample_step f a i s) = fpu s"
  "reads (sample_step f a i s) = reads s"
  "audioBuffer (sample_step f a i s) = (audioBuffer s)(i := ucast (tone_sample (fpu s) a f i))"
  by (simp_all add: sample_step_def Let_def)

lemma sample_step_trace:
  "\<exists>out. trace (sample_step f a i s) = trace s @ out \<and> list_all is_debug out"
  by (simp add: sample_step_def Let_def sample_debug_def is_debug_def is_serial_def)

lemma generateTone_loop_flags:
  "same_flags s (snd (generateTone_loop f n a i p s))
   \<and> firstCall (snd (generateTone_loop f n a i p s)) = firstCall s
   \<and> reads (snd (generateTone_loop f n a i p s)) = reads s"
proof (induction "AUDIO_BUFFER_SIZE - i" arbitrary: i p s)
  case 0
  then show ?case by (simp add: generateTone_loop_done same_flags_def)
next
  case (Suc k)
  show ?case
  proof (cases "i < unat n")
    case True
    with Suc.hyps(2) have step: "i < unat n" "i < AUDIO_BUFFER_SIZE" by simp_all
    from Suc.hyps(2) have "k = AUDIO_BUFFER_SIZE - Suc i" by simp
    from Suc.hyps(1) [OF this] show ?thesis
      by (simp add: generateTone_loop_step [OF step] same_flags_def)
  next
    case False
    then show ?thesis by (simp add: generateTone_loop_done same_flags_def)
  qed
qed

lemma generateTone_loop_trace:
  "\<exists>out. trace (snd (generateTone_loop f n a i p s)) = trace s @ out \<and> list_all is_debug out"
proof (induction "AUDIO_BUFFER_SIZE - i" arbitrary: i p s)
  case 0
  then show ?case by (simp add: generateTone_loop_done)
next
  case (Suc k)
  show ?case
  proof (cases "i < unat n")
    case True
    with Suc.hyps(2) have step: "i < unat n" "i < AUDIO_BUFFER_SIZE" by simp_all
    from Suc.hyps(2) have "k = AUDIO_BUFFER_SIZE - Suc i" by simp
    from Suc.hyps(1) [OF this] obtain out where
      tr: "trace (snd (generateTone_loop f n a (Suc i)
          (if abs_int (sint (tone_sample (fpu s) a f i)) > abs_int (sint p) then tone_sample (fpu s) a f i else p)
          (sample_step f a i s))) = trace (sample_step f a i s) @ out"
      and ser: "list_all is_debug out"
      by blast
    from sample_step_trace obtain out0 where
      "trace (sample_step f a i s) = trace s @ out0" "list_all is_debug out0"
      by blast
    with tr ser show ?thesis
      by (simp add: generateTone_loop_step [OF step])
  next
    case False
    then show ?thesis by (simp add: generateTone_loop_done)
  qed
qed

lemma generateTone_loop_buffer:
  "audioBuffer (snd (generateTone_loop f n a i p s)) j =
     (if i \<le> j \<and> j < unat n \<and> j < AUDIO_BUFFER_SIZE then ucast (tone_sample (fpu s) a f j)
      else audioBuffer s j)"
proof (induction "AUDIO_BUFFER_SIZE - i" arbitrary: i p s)
  case 0
  then show ?case by (auto simp add: generateTone_loop_done)
next
  case (Suc k)
  show ?case
  proof (cases "i < unat n")
    case True
    with Suc.hyps(2) have step: "i < unat n" "i < AUDIO_BUFFER_SIZE" by simp_all
    from Suc.hyps(2) have "k = AUDIO_BUFFER_SIZE - Suc i" by simp
    from Suc.hyps(1) [OF this] step show ?thesis
      by (auto simp add: generateTone_loop_step [OF step])
  next
    case False
    then show ?thesis by (auto simp add: generateTone_loop_done)
  qed
qed

lemma generateTone_flags:
  "same_flags s (generateTone f n v s) \<and> reads (generateTone f n v s) = reads s
   \<and> \<not> firstCall (generateTone f n v s)"
  using generateTone_loop_flags [of s f n "volume_amplitude v" 0 0]
        generateTone_loop_flags [of "(emit es s)\<lparr>firstCall := False\<rparr>" f n "volume_amplitude v" 0 0 for es]
  by (simp add: generateTone_def Let_def case_prod_unfold same_flags_def volume_amplitude_def)

lemma generateTone_trace:
  "\<exists>out. trace (generateTone f n v s) = trace s @ out \<and> list_all is_debug out"
proof -
  define s1 where "s1 = (if firstCall s
                then (emit [Println ''\<newline>=== AUDIO GENERATION DEBUG ==='',
                            Print ''Volume: '', PrintNum (constrain (uint v) 0 100), Println ''%'',
                            Print ''Target amplitude: '', PrintlnNum (sint (volume_amplitude v)),
                            Print ''Max possible: 32767 (using '',
                            PrintNum (sint (volume_amplitude v) * 100 div 32767), Println ''%)''] s)
                     \<lparr>firstCall := False\<rparr>
                else s)"
  have "\<exists>out0. trace s1 = trace s @ out0 \<and> list_all is_debug out0"
    by (simp add: s1_def is_debug_def is_serial_def)
  then obtain out0 where a: "trace s1 = trace s @ out0" "list_all is_debug out0" by blast
  from generateTone_loop_trace [of f n "volume_amplitude v" 0 0 s1]
  obtain out1 where b: "trace (snd (generateTone_loop f n (volume_amplitude v) 0 0 s1)) = trace s1 @ out1"
    "list_all is_debug out1" by blast
  have "generateTone f n v s =
        emit [Print ''Peak sample: '',
              PrintNum (sint (fst (generateTone_loop f n (volume_amplitude v) 0 0 s1))), Print '' ('',
              PrintNum (abs_int (sint (fst (generateTone_loop f n (volume_amplitude v) 0 0 s1))) * 100 div 32767),
              Println ''% of max)''] (snd (generateTone_loop f n (volume_amplitude v) 0 0 s1))"
    by (simp add: generateTone_def Let_def case_prod_unfold s1_def volume_amplitude_def)
  with a b show ?thesis by (simp add: is_debug_def is_serial_def)
qed

lemma generateTone_buffer:
  "audioBuffer (generateTone f n v s) j =
     (if j < unat n \<and> j < AUDIO_BUFFER_SIZE then ucast (tone_sample (fpu s) (volume_amplitude v) f j)
      else audioBuffer s j)"
  by (simp add: generateTone_def Let_def case_prod_unfold generateTone_loop_buffer
      volume_amplitude_def)

lemma sint_volume_amplitude:
  "sint (volume_amplitude v) = constrain (uint v) 0 100 * 32767 div 100"
proof -
  let ?c = "constrain (uint v) 0 100"
  have c: "0 \<le> ?c" "?c \<le> 100" by (simp_all add: constrain_def)
  then have "0 \<le> ?c * 32767 div 100" "?c * 32767 div 100 \<le> 32767" by simp_all
  then have "signed_take_bit 15 (?c * 32767 div 100) = ?c * 32767 div 100"
    by (intro signed_take_bit_int_eq_self) simp_all
  then show ?thesis
    by (simp add: volume_amplitude_def map_long_def sint_sbintrunc')
qed

lemma volume_amplitude_range:
  "0 \<le> sint (volume_amplitude v)" "sint (volume_amplitude v) \<le> 32767"
proof -
  let ?c = "constrain (uint v) 0 100"
  have c: "0 \<le> ?c" "?c \<le> 100" by (simp_all add: constrain_def)
  then show "0 \<le> sint (volume_amplitude v)" "sint (volume_amplitude v) \<le> 32767"
    by (simp_all add: sint_volume_amplitude)
qed

lemma c_trunc_abs_le: "\<bar>x\<bar> \<le> real_of_int m \<Longrightarrow> \<bar>c_trunc x\<bar> \<le> m"
  unfolding c_trunc_def by (auto simp: abs_if split: if_splits; linarith)

lemma stored_sample_ucast: "stored_sample (ucast (w :: 16 word)) = sint w"
  by (simp add: stored_sample_def ucast_up_ucast_id is_up)

subsection \<open>The synthesised samples\<close>

lemma sqrt2_tight: "14142 / 10000 < sqrt 2" "sqrt 2 < 141422 / 100000"
proof -
  show "14142 / 10000 < sqrt 2"
    by (rule real_less_rsqrt) (simp add: power2_eq_square)
  show "sqrt 2 < 141422 / 100000"
    by (rule real_less_lsqrt) (simp_all add: power2_eq_square)
qed

lemma full_scale_at_quarter_pi: "round (32767 * sin (pi / 4)) = 23170"
proof -
  have lo: "23169.5 < 32767 * (sqrt 2 / 2)" using sqrt2_tight(1) by simp
  have hi: "32767 * (sqrt 2 / 2) < 23170" using sqrt2_tight(2) by simp
  show ?thesis
    unfolding sin_45 using lo hi by (intro round_unique) simp_all
qed

text \<open>
  Claim C8. Whatever sample count is requested, also one above the capacity,
  \<open>generateTone\<close> leaves every cell from index \<open>AUDIO_BUFFER_SIZE\<close> on (and every cell
  from the requested count on) as it was: the stores stay inside the array.
\<close>

theorem generateTone_in_bounds:
  assumes "AUDIO_BUFFER_SIZE \<le> j \<or> unat n \<le> j"
  shows "audioBuffer (generateTone f n v s) j = audioBuffer s j"
  using assms by (auto simp add: generateTone_buffer)

theorem generateTone_in_bounds_witness:
  "(AUDIO_BUFFER_SIZE \<le> 256 \<or> unat (300 :: 16 word) \<le> 256)
   \<and> audioBuffer (generateTone 440 300 50 (new_driver (\<lambda>i. 7) 0)) 256 = 7"
  using generateTone_in_bounds [of 256 300 440 50 "new_driver (\<lambda>i. 7) 0"]
  by (simp add: AUDIO_BUFFER_SIZE_def new_driver_def)

subsection \<open>Rounding errors\<close>

lemma round_even_close: "\<bar>of_int (round_even x) - x\<bar> \<le> 1 / 2"
proof -
  define d where "d = x - of_int \<lfloor>x\<rfloor>"
  have d: "0 \<le> d" "d < 1" unfolding d_def by linarith+
  have x: "x = of_int \<lfloor>x\<rfloor> + d" by (simp add: d_def)
  consider "round_even x = \<lfloor>x\<rfloor>" "d \<le> 1 / 2" | "round_even x = \<lfloor>x\<rfloor> + 1" "1 / 2 \<le> d"
    unfolding round_even_def Let_def d_def [symmetric] by (cases "d < 1 / 2"; cases "1 / 2 < d"; cases "even \<lfloor>x\<rfloor>"; auto)
  then show ?thesis
  proof cases
    case 1
    then have "of_int (round_even x) - x = - d" using x by simp
    with d 1 show ?thesis by simp
  next
    case 2
    then have "of_int (round_even x) - x = 1 - d" using x by simp
    with d 2 show ?thesis by simp
  qed
qed

lemma round_to_close:
  "\<bar>round_to p x - x\<bar> \<le> 2 powr (- real p) * \<bar>x\<bar>"
proof (cases "x = 0")
  case True
  then show ?thesis by (simp add: round_to_def)
next
  case False
  define e where "e = \<lfloor>log 2 \<bar>x\<bar>\<rfloor>"
  define ulp :: real where "ulp = 2 powr (of_int e - real p + 1)"
  define r :: real where "r = of_int (round_even (x / ulp))"
  have pos: "0 < ulp" by (simp add: ulp_def)
  from False have low: "2 powr (of_int e) \<le> \<bar>x\<bar>"
    using floor_log_eq_powr_iff [of "\<bar>x\<bar>" 2 e] by (simp add: e_def)
  have rt: "round_to p x = r * ulp"
    using False by (simp add: round_to_def Let_def ulp_def e_def r_def)
  have "r * ulp - x = (r - x / ulp) * ulp"
    using pos by (simp add: field_simps)
  then have "\<bar>round_to p x - x\<bar> = \<bar>r - x / ulp\<bar> * ulp"
    using pos by (simp add: rt abs_mult)
  also have "\<dots> \<le> (1 / 2) * ulp"
    using pos round_even_close [of "x / ulp"] unfolding r_def by (intro mult_right_mono) simp_all
  also have "(1 / 2) * ulp = 2 powr (- real p) * 2 powr (of_int e)"
    by (simp add: ulp_def powr_add powr_diff powr_minus field_simps)
  also have "\<dots> \<le> 2 powr (- real p) * \<bar>x\<bar>"
    using low by (intro mult_left_mono) simp_all
  finally show ?thesis .
qed

lemma round_to_eps:
  assumes "22 \<le> p"
  shows "\<bar>round_to p x - x\<bar> \<le> fp_eps * \<bar>x\<bar>"
proof -
  have "2 powr (- real p) \<le> 2 powr (- 22)"
    using assms by (intro powr_mono) simp_all
  also have "(2::real) powr (- 22) = fp_eps"
    by (simp add: fp_eps_def powr_minus powr_numeral inverse_eq_divide)
  finally have "2 powr (- real p) * \<bar>x\<bar> \<le> fp_eps * \<bar>x\<bar>"
    by (intro mult_right_mono) simp_all
  with round_to_close [of p x] show ?thesis by linarith
qed

lemma ieee_fpu_accurate:
  assumes "22 \<le> p"
  shows "fp_accurate (ieee_fpu p)"
proof -
  have s: "\<bar>round_to p (sin x) - sin x\<bar> \<le> fp_eps" for x
  proof -
    have "fp_eps * \<bar>sin x\<bar> \<le> fp_eps * 1"
      by (intro mult_left_mono) (simp_all add: fp_eps_def)
    with round_to_eps [OF assms, of "sin x"] show ?thesis by simp
  qed
  have c: "\<bar>round_to 53 pi - pi\<bar> \<le> fp_eps * pi"
    using round_to_eps [of 53 pi] by simp
  have r24: "\<bar>round_to 24 x - x\<bar> \<le> fp_eps * \<bar>x\<bar>" for x
    by (rule round_to_eps) simp
  have r53: "\<bar>round_to 53 x - x\<bar> \<le> fp_eps * \<bar>x\<bar>" for x
    by (rule round_to_eps) simp
  show ?thesis
    unfolding fp_accurate_def ieee_fpu_def fpu.select_convs
    by (intro conjI allI impI r24 r53 s c round_to_eps assms)
qed

lemma fp_eps_range: "0 < fp_eps" "fp_eps < 1"
  by (simp_all add: fp_eps_def)

lemma rounded_exact: "rounded 0 x x"
  by (simp add: rounded_def)

lemma rounded_nonneg: "rounded k a x \<Longrightarrow> 0 \<le> x \<Longrightarrow> 0 \<le> a"
proof -
  assume w: "rounded k a x" and x: "0 \<le> x"
  have "0 \<le> x * (1 - fp_eps) ^ k"
    using x fp_eps_range by (intro mult_nonneg_nonneg zero_le_power) simp_all
  with w show "0 \<le> a" by (simp add: rounded_def)
qed

lemma rounded_op:
  assumes m: "\<bar>m - e\<bar> \<le> fp_eps * \<bar>e\<bar>" and w: "rounded k e x" and x: "0 \<le> x"
  shows "rounded (Suc k) m x"
proof -
  from rounded_nonneg [OF w x] have e: "0 \<le> e" .
  from m e have lo: "e * (1 - fp_eps) \<le> m" and hi: "m \<le> e * (1 + fp_eps)"
    by (simp_all add: abs_le_iff algebra_simps)
  have "x * (1 - fp_eps) ^ k * (1 - fp_eps) \<le> e * (1 - fp_eps)"
    using w fp_eps_range by (intro mult_right_mono) (simp_all add: rounded_def)
  moreover have "e * (1 + fp_eps) \<le> x * (1 + fp_eps) ^ k * (1 + fp_eps)"
    using w fp_eps_range by (intro mult_right_mono) (simp_all add: rounded_def)
  ultimately show ?thesis
    using lo hi unfolding rounded_def power_Suc2 mult.assoc [symmetric] by linarith
qed

lemma rounded_once:
  assumes "\<bar>m - x\<bar> \<le> fp_eps * \<bar>x\<bar>" and "0 \<le> x"
  shows "rounded 1 m x"
  using rounded_op [OF assms(1) rounded_exact assms(2)] by simp

lemma rounded_mult:
  assumes a: "rounded j a A" and b: "rounded k b B" and A: "0 \<le> A" and B: "0 \<le> B"
  shows "rounded (j + k) (a * b) (A * B)"
proof -
  have pj: "0 \<le> (1 - fp_eps) ^ j" and pk: "0 \<le> (1 - fp_eps) ^ k"
    using fp_eps_range by simp_all
  have "(A * (1 - fp_eps) ^ j) * (B * (1 - fp_eps) ^ k) \<le> a * b"
    using a b A B pj pk rounded_nonneg [OF a A]
    by (intro mult_mono) (simp_all add: rounded_def)
  moreover have "a * b \<le> (A * (1 + fp_eps) ^ j) * (B * (1 + fp_eps) ^ k)"
    using a b A B rounded_nonneg [OF a A] rounded_nonneg [OF b B] fp_eps_range
    by (intro mult_mono) (simp_all add: rounded_def)
  ultimately show ?thesis
    by (simp add: rounded_def power_add mult_ac)
qed

lemma six_roundings:
  "(1 + fp_eps) ^ 6 \<le> 1 + 7 * fp_eps" "1 - 7 * fp_eps \<le> (1 - fp_eps) ^ 6"
  by (simp_all add: fp_eps_def power_divide)

lemma rounded_six:
  assumes "rounded 6 a x" and "0 \<le> x"
  shows "\<bar>a - x\<bar> \<le> 7 * fp_eps * x"
proof -
  have "x * (1 + fp_eps) ^ 6 \<le> x * (1 + 7 * fp_eps)"
    using assms(2) six_roundings(1) by (rule mult_left_mono [rotated])
  moreover have "x * (1 - 7 * fp_eps) \<le> x * (1 - fp_eps) ^ 6"
    using assms(2) six_roundings(2) by (rule mult_left_mono [rotated])
  ultimately show ?thesis
    using assms(1) by (simp add: rounded_def abs_le_iff algebra_simps)
qed

lemma fp_accurateD:
  assumes "fp_accurate fp"
  shows "b \<noteq> 0 \<Longrightarrow> \<bar>float_div fp a b - a / b\<bar> \<le> fp_eps * \<bar>a / b\<bar>"
    and "\<bar>double_mul fp a b - a * b\<bar> \<le> fp_eps * \<bar>a * b\<bar>"
    and "\<bar>double_to_float fp x - x\<bar> \<le> fp_eps * \<bar>x\<bar>"
    and "\<bar>sin_call fp x - sin x\<bar> \<le> fp_eps"
    and "\<bar>sample_mul fp a b - a * b\<bar> \<le> fp_eps * \<bar>a * b\<bar>"
    and "\<bar>PI fp - pi\<bar> \<le> fp_eps * pi"
  using assms unfolding fp_accurate_def by blast+

lemma tone_angle_rounded:
  assumes "fp_accurate fp"
  shows "rounded 6 (tone_angle fp f i) (exact_angle f i)"
proof -
  define F where "F = real (unat f)"
  define T where "T = real i / real SAMPLE_RATE"
  define t where "t = float_div fp (real i) (real SAMPLE_RATE)"
  define c1 where "c1 = double_mul fp 2 (PI fp)"
  define c2 where "c2 = double_mul fp c1 F"
  define c3 where "c3 = double_mul fp c2 t"
  note acc = fp_accurateD [OF assms]
  have F: "0 \<le> F" unfolding F_def by (rule of_nat_0_le_iff)
  have T: "0 \<le> T" unfolding T_def by (intro divide_nonneg_nonneg of_nat_0_le_iff)
  have R: "real SAMPLE_RATE \<noteq> 0" by (simp add: SAMPLE_RATE_def)
  have t: "rounded 1 t T"
    unfolding t_def T_def by (rule rounded_once [OF acc(1) [OF R]]) simp
  have "\<bar>PI fp - pi\<bar> \<le> fp_eps * \<bar>pi\<bar>" using acc(6) by simp
  then have p: "rounded 1 (PI fp) pi"
    by (rule rounded_once) simp
  have "rounded (0 + 1) (2 * PI fp) (2 * pi)"
    by (intro rounded_mult rounded_exact p) simp_all
  then have 1: "rounded (Suc (0 + 1)) c1 (2 * pi)"
    unfolding c1_def by (intro rounded_op [OF acc(2)]) simp_all
  have "rounded (Suc (0 + 1) + 0) (c1 * F) (2 * pi * F)"
    using F by (intro rounded_mult rounded_exact 1) simp_all
  then have 2: "rounded (Suc (Suc (0 + 1) + 0)) c2 (2 * pi * F)"
    unfolding c2_def using F by (intro rounded_op [OF acc(2)]) simp_all
  have "rounded (Suc (Suc (0 + 1) + 0) + 1) (c2 * t) (2 * pi * F * T)"
    using F T by (intro rounded_mult 2 t) simp_all
  then have 3: "rounded (Suc (Suc (Suc (0 + 1) + 0) + 1)) c3 (2 * pi * F * T)"
    unfolding c3_def using F T by (intro rounded_op [OF acc(2)]) simp_all
  have "rounded (Suc (Suc (Suc (Suc (0 + 1) + 0) + 1))) (double_to_float fp c3) (2 * pi * F * T)"
    using F T by (intro rounded_op [OF acc(3)] 3) simp_all
  then have "rounded 6 (double_to_float fp c3) (2 * pi * F * T)"
    by (simp add: eval_nat_numeral)
  then show ?thesis
    unfolding tone_angle_def Let_def t_def c1_def c2_def c3_def exact_angle_def F_def T_def .
qed


lemma sin_lipschitz: "\<bar>sin a - sin b\<bar> \<le> \<bar>a - b :: real\<bar>"
proof -
  have "\<bar>sin a - sin b\<bar> = 2 * \<bar>sin ((a - b) / 2)\<bar> * \<bar>cos ((a + b) / 2)\<bar>"
    by (simp add: sin_diff_sin abs_mult)
  also have "\<dots> \<le> 2 * \<bar>(a - b) / 2\<bar> * 1"
    by (intro mult_mono mult_left_mono abs_sin_x_le_abs_x abs_cos_le_one) simp_all
  finally show ?thesis by simp
qed

lemma exact_angle_nonneg: "0 \<le> exact_angle f i"
  unfolding exact_angle_def by (intro mult_nonneg_nonneg divide_nonneg_nonneg of_nat_0_le_iff) simp_all

lemma tone_angle_close:
  assumes "fp_accurate fp"
  shows "\<bar>tone_angle fp f i - exact_angle f i\<bar> \<le> 7 * fp_eps * exact_angle f i"
  by (rule rounded_six [OF tone_angle_rounded [OF assms] exact_angle_nonneg])

lemma sine_close:
  assumes "fp_accurate fp"
  shows "\<bar>sin_call fp (tone_angle fp f i) - sin (exact_angle f i)\<bar>
           \<le> fp_eps * (1 + 7 * exact_angle f i)"
proof -
  have "\<bar>sin_call fp (tone_angle fp f i) - sin (exact_angle f i)\<bar>
          \<le> \<bar>sin_call fp (tone_angle fp f i) - sin (tone_angle fp f i)\<bar>
            + \<bar>sin (tone_angle fp f i) - sin (exact_angle f i)\<bar>"
    by simp
  also have "\<dots> \<le> fp_eps + \<bar>tone_angle fp f i - exact_angle f i\<bar>"
    by (intro add_mono fp_accurateD(4) [OF assms] sin_lipschitz)
  also have "\<dots> \<le> fp_eps + 7 * fp_eps * exact_angle f i"
    by (intro add_left_mono tone_angle_close [OF assms])
  finally show ?thesis by (simp add: algebra_simps)
qed

lemma sample_product_close:
  assumes acc: "fp_accurate fp" and A: "0 \<le> A"
  shows "\<bar>sample_mul fp A (sin_call fp (tone_angle fp f i)) - A * sin (exact_angle f i)\<bar>
           \<le> A * fp_eps * (3 + 7 * exact_angle f i)"
    and "\<bar>sample_mul fp A (sin_call fp (tone_angle fp f i))\<bar> \<le> A * (1 + fp_eps) ^ 2"
proof -
  define y where "y = sin_call fp (tone_angle fp f i)"
  define P where "P = sample_mul fp A y"
  define th where "th = exact_angle f i"
  have th: "0 \<le> th" unfolding th_def by (rule exact_angle_nonneg)
  have y1: "\<bar>y - sin (tone_angle fp f i)\<bar> \<le> fp_eps"
    unfolding y_def by (rule fp_accurateD(4) [OF acc])
  have "\<bar>y\<bar> \<le> \<bar>y - sin (tone_angle fp f i)\<bar> + \<bar>sin (tone_angle fp f i)\<bar>" by simp
  also have "\<dots> \<le> fp_eps + 1" by (intro add_mono y1 abs_sin_le_one)
  finally have y: "\<bar>y\<bar> \<le> 1 + fp_eps" by simp
  have Ay: "\<bar>A * y\<bar> \<le> A * (1 + fp_eps)"
    using A y by (simp add: abs_mult mult_left_mono)
  have "\<bar>P - A * y\<bar> \<le> fp_eps * \<bar>A * y\<bar>"
    unfolding P_def by (rule fp_accurateD(5) [OF acc])
  also have "\<dots> \<le> fp_eps * (A * (1 + fp_eps))"
    using fp_eps_range Ay by (intro mult_left_mono) simp_all
  finally have P: "\<bar>P - A * y\<bar> \<le> fp_eps * (A * (1 + fp_eps))" .
  have "\<bar>P\<bar> \<le> \<bar>P - A * y\<bar> + \<bar>A * y\<bar>" by simp
  also have "\<dots> \<le> fp_eps * (A * (1 + fp_eps)) + A * (1 + fp_eps)"
    by (intro add_mono P Ay)
  also have "\<dots> = A * (1 + fp_eps) ^ 2" by (simp add: power2_eq_square algebra_simps)
  finally show "\<bar>sample_mul fp A (sin_call fp (tone_angle fp f i))\<bar> \<le> A * (1 + fp_eps) ^ 2"
    unfolding P_def y_def .
  have s: "\<bar>y - sin th\<bar> \<le> fp_eps * (1 + 7 * th)"
    unfolding y_def th_def by (rule sine_close [OF acc])
  have "\<bar>A * y - A * sin th\<bar> = A * \<bar>y - sin th\<bar>"
    using A by (simp add: abs_mult right_diff_distrib [symmetric])
  also have "\<dots> \<le> A * (fp_eps * (1 + 7 * th))"
    using A s by (rule mult_left_mono [rotated])
  finally have Q: "\<bar>A * y - A * sin th\<bar> \<le> A * (fp_eps * (1 + 7 * th))" .
  have "\<bar>P - A * sin th\<bar> \<le> \<bar>P - A * y\<bar> + \<bar>A * y - A * sin th\<bar>" by simp
  also have "\<dots> \<le> fp_eps * (A * (1 + fp_eps)) + A * (fp_eps * (1 + 7 * th))"
    by (intro add_mono P Q)
  also have "\<dots> = A * fp_eps * (2 + fp_eps + 7 * th)" by (simp add: algebra_simps)
  also have "\<dots> \<le> A * fp_eps * (3 + 7 * th)"
    using A fp_eps_range by (intro mult_left_mono mult_nonneg_nonneg) simp_all
  finally show "\<bar>sample_mul fp A (sin_call fp (tone_angle fp f i)) - A * sin (exact_angle f i)\<bar>
           \<le> A * fp_eps * (3 + 7 * exact_angle f i)"
    unfolding P_def y_def th_def .
qed

lemma sint_tone_sample:
  assumes acc: "fp_accurate fp" and a0: "0 \<le> sint a"
  shows "sint (tone_sample fp a f i) =
           c_trunc (sample_mul fp (real_of_int (sint a)) (sin_call fp (tone_angle fp f i)))"
proof -
  define r where "r = real_of_int (sint a)"
  define P where "P = sample_mul fp r (sin_call fp (tone_angle fp f i))"
  have r0: "0 \<le> r" unfolding r_def using a0 by (simp only: of_int_0_le_iff)
  have "sint a < 2 ^ 15" using sint_lt [of a] by simp
  then have "sint a \<le> 32767" by simp
  then have "real_of_int (sint a) \<le> real_of_int 32767" by (simp only: of_int_le_iff)
  then have r1: "r \<le> 32767" unfolding r_def by (simp only: of_int_numeral)
  have "\<bar>P\<bar> \<le> r * (1 + fp_eps) ^ 2"
    unfolding P_def by (rule sample_product_close(2) [OF acc r0])
  also have "\<dots> \<le> 32767 * (1 + fp_eps) ^ 2"
    using r1 by (intro mult_right_mono) simp_all
  also have "\<dots> \<le> real_of_int 32767 + 1 / 2"
    by (simp add: fp_eps_def power2_eq_square)
  finally have "\<bar>P\<bar> \<le> real_of_int 32767 + 1 / 2" .
  then have "\<bar>c_trunc P\<bar> \<le> 32767"
    unfolding c_trunc_def by (auto simp: abs_if split: if_splits; linarith)
  then have "- (2 ^ 15) \<le> c_trunc P" "c_trunc P < 2 ^ 15" by simp_all
  then have "signed_take_bit 15 (c_trunc P) = c_trunc P"
    by (rule signed_take_bit_int_eq_self)
  then have "sint (word_of_int (c_trunc P) :: 16 word) = c_trunc P"
    by (simp add: sint_sbintrunc')
  then show ?thesis
    unfolding tone_sample_def Let_def P_def r_def .
qed

lemma sample_mul_zero:
  assumes "fp_accurate fp"
  shows "sample_mul fp 0 b = 0"
  using fp_accurateD(5) [OF assms, of 0 b] by simp

lemma c_trunc_close:
  assumes "\<bar>P - x\<bar> \<le> d"
  shows "\<bar>real_of_int (c_trunc P) - x\<bar> < 1 + d"
proof -
  have "\<bar>real_of_int (c_trunc P) - P\<bar> < 1"
    unfolding c_trunc_def by (auto simp: abs_if; linarith)
  then show ?thesis using assms by linarith
qed


lemma quarter_pi_angle: "exact_angle 1000 2 = pi / 4"
  by (simp add: exact_angle_def SAMPLE_RATE_def)

lemma full_volume_amplitude: "sint (volume_amplitude 100) = 32767"
  by (simp add: sint_volume_amplitude constrain_def)

lemma c_trunc_near_quarter_pi:
  assumes "\<bar>P - 32767 * sin (pi / 4)\<bar> \<le> 32767 * fp_eps * (3 + 7 * (pi / 4))"
  shows "c_trunc P = 23169"
proof -
  have "32767 * fp_eps * (3 + 7 * (pi / 4)) \<le> 32767 * fp_eps * (3 + 7 * (4 / 4))"
    using fp_eps_range pi_less_4 by (intro mult_left_mono add_left_mono divide_right_mono) simp_all
  also have "\<dots> \<le> 8 / 100" by (simp add: fp_eps_def)
  finally have d: "\<bar>P - 32767 * (sqrt 2 / 2)\<bar> \<le> 8 / 100"
    using assms by (simp add: sin_45)
  have "23169 + 8 / 100 < 32767 * (sqrt 2 / 2)" using sqrt2_tight(1) by simp
  moreover have "32767 * (sqrt 2 / 2) < 23170 - 8 / 100" using sqrt2_tight(2) by simp
  ultimately have "23169 \<le> P" "P < 23170" using d by linarith+
  then have "\<lfloor>P\<rfloor> = 23169" "0 \<le> P" by (simp_all add: floor_unique)
  then show ?thesis by (simp add: c_trunc_def)
qed

lemma full_scale_sample:
  assumes "fp_accurate fp"
  shows "sint (tone_sample fp (volume_amplitude 100) 1000 2) = 23169"
proof -
  have "\<bar>sample_mul fp 32767 (sin_call fp (tone_angle fp 1000 2)) - 32767 * sin (exact_angle 1000 2)\<bar>
          \<le> 32767 * fp_eps * (3 + 7 * exact_angle 1000 2)"
    by (rule sample_product_close(1) [OF assms]) simp
  then have "c_trunc (sample_mul fp 32767 (sin_call fp (tone_angle fp 1000 2))) = 23169"
    unfolding quarter_pi_angle by (rule c_trunc_near_quarter_pi)
  moreover have "sint (tone_sample fp (volume_amplitude 100) 1000 2)
      = c_trunc (sample_mul fp (real_of_int (sint (volume_amplitude 100)))
                   (sin_call fp (tone_angle fp 1000 2)))"
    by (rule sint_tone_sample [OF assms volume_amplitude_range(1)])
  ultimately show ?thesis
    by (simp only: full_volume_amplitude of_int_numeral)
qed

text \<open>
  Claim C3, as amended. On a platform whose arithmetic is accurate, for every index below
  both the requested count and the capacity, the cell holds, zero-extended, the 16-bit
  sample whose signed value is the product of the amplitude and the sine of the angle, as
  the platform computes them (\<open>t\<close> and the angle in single precision), with its fraction
  discarded (towards zero, the C cast; not rounded to nearest). That product is within
  \<open>amplitude \<sqdot> 2\<^sup>-\<^sup>2\<^sup>2 \<sqdot> (3 + 7 \<theta>)\<close> of the exact \<open>amplitude \<sqdot> sin \<theta>\<close>, where
  \<open>\<theta> = 2\<pi> \<sqdot> f \<sqdot> i / SAMPLE_RATE\<close>, so the stored sample is less than one more than that
  away from it. The amplitude is \<open>clamped volume \<sqdot> 32767 div 100\<close>: 0 for volume 0, 32767
  from volume 100 on; at volume 0 every written cell is 0.
\<close>

theorem generateTone_samples:
  assumes "i < min (unat n) AUDIO_BUFFER_SIZE" and "fp_accurate (fpu s)"
  shows "audioBuffer (generateTone f n v s) i
           = ucast (tone_sample (fpu s) (volume_amplitude v) f i)
     \<and> stored_sample (audioBuffer (generateTone f n v s) i) =
         c_trunc (sample_mul (fpu s) (real_of_int (sint (volume_amplitude v)))
                    (sin_call (fpu s) (tone_angle (fpu s) f i)))
     \<and> \<bar>sample_mul (fpu s) (real_of_int (sint (volume_amplitude v)))
            (sin_call (fpu s) (tone_angle (fpu s) f i))
          - real_of_int (sint (volume_amplitude v)) * sin (exact_angle f i)\<bar>
         \<le> real_of_int (sint (volume_amplitude v)) * fp_eps * (3 + 7 * exact_angle f i)
     \<and> \<bar>real_of_int (stored_sample (audioBuffer (generateTone f n v s) i))
          - real_of_int (sint (volume_amplitude v)) * sin (exact_angle f i)\<bar>
         < 1 + real_of_int (sint (volume_amplitude v)) * fp_eps * (3 + 7 * exact_angle f i)
     \<and> sint (volume_amplitude v) = constrain (uint v) 0 100 * 32767 div 100
     \<and> (v = 0 \<longrightarrow> sint (volume_amplitude v) = 0 \<and> audioBuffer (generateTone f n v s) i = 0)
     \<and> (100 \<le> v \<longrightarrow> sint (volume_amplitude v) = 32767)"
proof -
  define A where "A = real_of_int (sint (volume_amplitude v))"
  define P where "P = sample_mul (fpu s) A (sin_call (fpu s) (tone_angle (fpu s) f i))"
  have A: "0 \<le> A"
    unfolding A_def using volume_amplitude_range(1) [of v] by (simp only: of_int_0_le_iff)
  have cell: "audioBuffer (generateTone f n v s) i
                = ucast (tone_sample (fpu s) (volume_amplitude v) f i)"
    using assms(1) by (simp add: generateTone_buffer)
  have val: "stored_sample (audioBuffer (generateTone f n v s) i) = c_trunc P"
    unfolding P_def A_def
    by (simp only: cell stored_sample_ucast
        sint_tone_sample [OF assms(2) volume_amplitude_range(1)])
  have close: "\<bar>P - A * sin (exact_angle f i)\<bar> \<le> A * fp_eps * (3 + 7 * exact_angle f i)"
    unfolding P_def by (rule sample_product_close(1) [OF assms(2) A])
  have near: "\<bar>real_of_int (stored_sample (audioBuffer (generateTone f n v s) i))
                - A * sin (exact_angle f i)\<bar>
              < 1 + A * fp_eps * (3 + 7 * exact_angle f i)"
    unfolding val by (rule c_trunc_close [OF close])
  have zero: "v = 0 \<longrightarrow> sint (volume_amplitude v) = 0 \<and> audioBuffer (generateTone f n v s) i = 0"
  proof
    assume v: "v = 0"
    then have a: "volume_amplitude v = 0"
      by (simp add: volume_amplitude_def constrain_def map_long_def)
    then have "tone_sample (fpu s) (volume_amplitude v) f i = 0"
      by (simp add: tone_sample_def c_trunc_def sample_mul_zero [OF assms(2)])
    with a cell show "sint (volume_amplitude v) = 0 \<and> audioBuffer (generateTone f n v s) i = 0"
      by simp
  qed
  have full: "100 \<le> v \<longrightarrow> sint (volume_amplitude v) = 32767"
  proof
    assume "100 \<le> v"
    then have "100 \<le> uint v" by (simp add: word_le_def)
    then show "sint (volume_amplitude v) = 32767"
      by (simp add: sint_volume_amplitude constrain_def)
  qed
  from cell val close near zero full sint_volume_amplitude [of v] show ?thesis
    unfolding P_def A_def by blast
qed

theorem generateTone_samples_witness:
  "(2 :: nat) < min (unat (3 :: 16 word)) AUDIO_BUFFER_SIZE
   \<and> fp_accurate (fpu (new_driver (\<lambda>i. 0) 0))
   \<and> stored_sample (audioBuffer (generateTone 1000 3 100 (new_driver (\<lambda>i. 0) 0)) 2) = 23169
   \<and> audioBuffer (generateTone 1000 3 0 (new_driver (\<lambda>i. 7) 0)) 2 = 0"
proof -
  have h: "(2 :: nat) < min (unat (3 :: 16 word)) AUDIO_BUFFER_SIZE"
    by (simp add: AUDIO_BUFFER_SIZE_def)
  have acc: "fp_accurate (fpu (new_driver mem 0))" for mem
    by (simp add: new_driver_def ieee_fpu_accurate)
  note full = generateTone_samples [OF h acc, of 1000 100 "\<lambda>i. 0"]
  from full [THEN conjunct2, THEN conjunct2, THEN conjunct1]
  have "c_trunc (sample_mul (fpu (new_driver (\<lambda>i. 0) 0)) 32767
                   (sin_call (fpu (new_driver (\<lambda>i. 0) 0))
                      (tone_angle (fpu (new_driver (\<lambda>i. 0) 0)) 1000 2))) = 23169"
    unfolding quarter_pi_angle full_volume_amplitude of_int_numeral
    by (rule c_trunc_near_quarter_pi)
  with full [THEN conjunct2, THEN conjunct1]
  have s: "stored_sample (audioBuffer (generateTone 1000 3 100 (new_driver (\<lambda>i. 0) 0)) 2) = 23169"
    by (simp only: full_volume_amplitude of_int_numeral)
  from generateTone_samples [OF h acc, of 1000 0 "\<lambda>i. 7"]
  have "audioBuffer (generateTone 1000 3 0 (new_driver (\<lambda>i. 7) 0)) 2 = 0"
    by blast
  with h acc s show ?thesis by blast
qed

text \<open>
  Claim C3 as stated fails: at full volume, 1000 Hz, index 2 the exact angle is \<open>\<pi>/4\<close> and
  \<open>32767 \<sqdot> sin (\<pi>/4)\<close> is 23169.767...; the product the code computes is within 0.08 of
  it, in double precision as in single precision, so the code stores 23169, and rounding
  to nearest gives 23170.
\<close>

theorem generateTone_rounds_counterexample:
  "stored_sample (audioBuffer (generateTone 1000 3 100 (new_driver (\<lambda>i. 0) 0)) 2) = 23169
   \<and> stored_sample (audioBuffer (generateTone 1000 3 100
        ((new_driver (\<lambda>i. 0) 0)\<lparr>fpu := ieee_fpu 24\<rparr>)) 2) = 23169
   \<and> spec_sample 100 1000 2 = 23170
   \<and> stored_sample (audioBuffer (generateTone 1000 3 100 (new_driver (\<lambda>i. 0) 0)) 2)
       \<noteq> spec_sample 100 1000 2"
proof -
  have code: "stored_sample (audioBuffer (generateTone 1000 3 100 s) 2) = 23169"
    if "fp_accurate (fpu s)" for s
  proof -
    have "audioBuffer (generateTone 1000 3 100 s) 2
            = ucast (tone_sample (fpu s) (volume_amplitude 100) 1000 2)"
      by (simp add: generateTone_buffer AUDIO_BUFFER_SIZE_def)
    then show ?thesis
      by (simp only: stored_sample_ucast full_scale_sample [OF that])
  qed
  have d: "stored_sample (audioBuffer (generateTone 1000 3 100 (new_driver (\<lambda>i. 0) 0)) 2) = 23169"
    by (rule code) (simp add: new_driver_def ieee_fpu_accurate)
  have f: "stored_sample (audioBuffer (generateTone 1000 3 100
        ((new_driver (\<lambda>i. 0) 0)\<lparr>fpu := ieee_fpu 24\<rparr>)) 2) = 23169"
    by (rule code) (simp add: ieee_fpu_accurate)
  have "spec_amplitude 100 = 32767"
    by (simp add: spec_amplitude_def constrain_def)
  moreover have "2 * pi * real (unat (1000 :: 16 word)) * real 2 / real SAMPLE_RATE = pi / 4"
    by (simp add: SAMPLE_RATE_def)
  ultimately have r: "spec_sample 100 1000 2 = 23170"
    by (simp only: spec_sample_def full_scale_at_quarter_pi)
  from d f r show ?thesis by simp
qed

subsection \<open>The bounded waits\<close>


lemma poll_event_seen:
  "hw (reads s) (RegRead r) \<noteq> 0 \<Longrightarrow>
   poll_event hw r msg t s = Some (True, s\<lparr>reads := Suc (reads s)\<rparr>)"
  by (subst poll_event.simps) (simp add: volatile_read_def)

lemma poll_event_timeout:
  "hw (reads s) (RegRead r) = 0 \<Longrightarrow> t < hw (Suc (reads s)) Millis \<Longrightarrow>
   poll_event hw r msg t s =
     Some (False, s\<lparr>reads := reads s + 3,
                    trace := trace s @ [Println msg, Print ''I2S ENABLE: '',
                       PrintlnNum (uint (hw (reads s + 2) (RegRead I2S_ENABLE)))]\<rparr>)"
  by (subst poll_event.simps) (simp add: volatile_read_def emit_def)

lemma poll_event_again:
  "hw (reads s) (RegRead r) = 0 \<Longrightarrow> hw (Suc (reads s)) Millis \<le> t \<Longrightarrow>
   poll_event hw r msg t s =
     poll_event hw r msg t (s\<lparr>reads := reads s + 2, trace := trace s @ [Yield]\<rparr>)"
  by (subst poll_event.simps) (simp add: volatile_read_def emit_def not_less [symmetric])

lemma poll_event_spins:
  "spins hw r t (reads s) k \<Longrightarrow>
   poll_event hw r msg t s =
     poll_event hw r msg t (s\<lparr>reads := reads s + 2 * k, trace := trace s @ replicate k Yield\<rparr>)"
proof (induction k arbitrary: s)
  case 0
  then show ?case by simp
next
  case (Suc k)
  from Suc.prems have first: "hw (reads s) (RegRead r) = 0" "hw (Suc (reads s)) Millis \<le> t"
    by (auto simp: spins_def dest: spec [of _ 0])
  let ?s1 = "s\<lparr>reads := reads s + 2, trace := trace s @ [Yield]\<rparr>"
  from Suc.prems have "spins hw r t (reads ?s1) k"
    by (auto simp: spins_def dest: spec [of _ "Suc j" for j])
  from Suc.IH [OF this] poll_event_again [OF first] show ?case
    by (simp add: replicate_app_Cons_same)
qed

lemma poll_event_seen_after:
  assumes "spins hw r t (reads s) k" and "hw (reads s + 2 * k) (RegRead r) \<noteq> 0"
  shows "poll_event hw r msg t s =
     Some (True, s\<lparr>reads := reads s + 2 * k + 1, trace := trace s @ replicate k Yield\<rparr>)"
  using poll_event_spins [OF assms(1), of msg]
        poll_event_seen [of hw "s\<lparr>reads := reads s + 2 * k, trace := trace s @ replicate k Yield\<rparr>" r msg t]
        assms(2)
  by simp

lemma poll_event_timeout_after:
  assumes "spins hw r t (reads s) k" and "hw (reads s + 2 * k) (RegRead r) = 0"
    and "t < hw (reads s + 2 * k + 1) Millis"
  shows "poll_event hw r msg t s =
     Some (False, s\<lparr>reads := reads s + 2 * k + 3,
                    trace := trace s @ replicate k Yield @ [Println msg, Print ''I2S ENABLE: '',
                       PrintlnNum (uint (hw (reads s + 2 * k + 2) (RegRead I2S_ENABLE)))]\<rparr>)"
  using poll_event_spins [OF assms(1), of msg]
        poll_event_timeout [of hw "s\<lparr>reads := reads s + 2 * k, trace := trace s @ replicate k Yield\<rparr>" r t msg]
        assms(2,3)
  by simp

lemma exits_at_least:
  assumes "\<exists>k. exits_at hw r t n k"
  shows "\<exists>k. spins hw r t n k \<and> exits_at hw r t n k"
proof -
  define k where "k = (LEAST k. exits_at hw r t n k)"
  from assms have ex: "exits_at hw r t n k" unfolding k_def by (rule LeastI_ex)
  have "\<not> exits_at hw r t n j" if "j < k" for j
    using that not_less_Least unfolding k_def by blast
  then have "spins hw r t n k"
    by (auto simp: spins_def exits_at_def not_less)
  with ex show ?thesis by blast
qed

lemma poll_event_returns:
  assumes "\<exists>k. exits_at hw r t (reads s) k"
  shows "\<exists>b s'. poll_event hw r msg t s = Some (b, s')"
proof -
  from exits_at_least [OF assms] obtain k where
    sp: "spins hw r t (reads s) k" and ex: "exits_at hw r t (reads s) k" by blast
  show ?thesis
  proof (cases "hw (reads s + 2 * k) (RegRead r) = 0")
    case True
    with ex have "t < hw (reads s + 2 * k + 1) Millis" by (simp add: exits_at_def)
    from poll_event_timeout_after [OF sp True this] show ?thesis by blast
  next
    case False
    from poll_event_seen_after [OF sp False] show ?thesis by blast
  qed
qed

lemma poll_event_frame:
  assumes "poll_event hw r msg t s = Some (b, s')"
  shows "same_flags s s' \<and> audioBuffer s' = audioBuffer s \<and> firstCall s' = firstCall s
         \<and> (\<exists>k en. trace s' = trace s @ replicate k Yield
                          @ (if b then [] else timeout_report msg en))"
proof -
  have "same_flags s (snd y) \<and> audioBuffer (snd y) = audioBuffer s
         \<and> firstCall (snd y) = firstCall s
         \<and> (\<exists>k en. trace (snd y) = trace s @ replicate k Yield
                          @ (if fst y then [] else timeout_report msg en))"
    if "poll_event hw r msg t s = Some y" for y
    using that
  proof (induction rule: poll_event.raw_induct [rotated, consumes 1, case_names step])
    case (step poll hw r msg t s y)
    show ?case
    proof (cases "hw (reads s) (RegRead r) = 0")
      case ev: True
      show ?thesis
      proof (cases "t < hw (Suc (reads s)) Millis")
        case True
        with ev step(2) have
          "y = (False, s\<lparr>reads := reads s + 3,
                  trace := trace s @ replicate 0 Yield
                    @ timeout_report msg (uint (hw (reads s + 2) (RegRead I2S_ENABLE)))\<rparr>)"
          by (auto simp: volatile_read_def emit_def timeout_report_def)
        then show ?thesis
          unfolding same_flags_def by (simp del: replicate.simps) blast
      next
        case False
        with ev step(2) have
          "poll hw r msg t (s\<lparr>reads := Suc (Suc (reads s)), trace := trace s @ [Yield]\<rparr>) = Some y"
          by (simp add: volatile_read_def emit_def)
        from step(1) [OF this] obtain k en where
          fl: "same_flags (s\<lparr>reads := Suc (Suc (reads s)), trace := trace s @ [Yield]\<rparr>) (snd y)"
            "audioBuffer (snd y) = audioBuffer s" "firstCall (snd y) = firstCall s"
          and tr: "trace (snd y) = (trace s @ [Yield]) @ replicate k Yield
                                   @ (if fst y then [] else timeout_report msg en)"
          by auto
        from tr have "trace (snd y) = trace s @ replicate (Suc k) Yield
                                   @ (if fst y then [] else timeout_report msg en)"
          by simp
        with fl show ?thesis
          unfolding same_flags_def by (simp del: replicate.simps) blast
      qed
    next
      case False
      with step(2) have "y = (True, s\<lparr>reads := Suc (reads s)\<rparr>)"
        by (auto simp: volatile_read_def)
      then have "trace (snd y) = trace s @ replicate 0 Yield @ (if fst y then [] else timeout_report msg 0)"
        "same_flags s (snd y)" "audioBuffer (snd y) = audioBuffer s" "firstCall (snd y) = firstCall s"
        by (simp_all add: same_flags_def)
      then show ?thesis by blast
    qed
  qed
  from this [OF assms] show ?thesis by simp
qed

subsection \<open>waitForCompletion\<close>

lemma waitForCompletion_unfold:
  "waitForCompletion hw n s =
     (case poll_event hw I2S_EVENTS_TXPTRUPD ''ERROR: I2S TXPTRUPD timeout!''
             (hw (reads s) Millis + 50) (s\<lparr>reads := Suc (reads s)\<rparr>) of
        None \<Rightarrow> None
      | Some (b, s2) \<Rightarrow>
          if \<not> b then Some s2
          else (case poll_event hw I2S_EVENTS_STOPPED ''ERROR: I2S STOPPED timeout!''
                       (hw (reads s2) Millis + 100)
                       ((emit (chunk_wait n) s2)\<lparr>reads := Suc (reads s2)\<rparr>) of
                  None \<Rightarrow> None
                | Some (b2, s5) \<Rightarrow>
                    if \<not> b2 then Some s5
                    else Some (emit [RegWrite I2S_EVENTS_STOPPED (Lit 0),
                                     Println ''I2S chunk complete''] s5)))"
  by (simp add: waitForCompletion_def volatile_read_def Let_def chunk_wait_def
           split: option.splits bool.splits prod.splits)

lemma waitForCompletion_frame:
  assumes "waitForCompletion hw n s = Some s'"
  shows "same_flags s s' \<and> audioBuffer s' = audioBuffer s \<and> firstCall s' = firstCall s
         \<and> (\<exists>oc. trace s' = trace s @ wait_effects n oc)"
proof -
  let ?s1 = "s\<lparr>reads := Suc (reads s)\<rparr>"
  from assms obtain b s2 where
    p1: "poll_event hw I2S_EVENTS_TXPTRUPD ''ERROR: I2S TXPTRUPD timeout!''
           (hw (reads s) Millis + 50) ?s1 = Some (b, s2)"
    by (auto simp: waitForCompletion_unfold split: option.splits)
  from poll_event_frame [OF p1] obtain k en where
    f1: "same_flags s s2" "audioBuffer s2 = audioBuffer s" "firstCall s2 = firstCall s"
    and t1: "trace s2 = trace s @ replicate k Yield
               @ (if b then [] else timeout_report ''ERROR: I2S TXPTRUPD timeout!'' en)"
    by (auto simp: same_flags_def)
  show ?thesis
  proof (cases b)
    case False
    with assms p1 have "s' = s2" by (simp add: waitForCompletion_unfold)
    with f1 t1 False have "trace s' = trace s @ wait_effects n (TxTimeout k en)"
      "same_flags s s'" "audioBuffer s' = audioBuffer s" "firstCall s' = firstCall s"
      by simp_all
    then show ?thesis by blast
  next
    case True
    let ?s4 = "(emit (chunk_wait n) s2)\<lparr>reads := Suc (reads s2)\<rparr>"
    from assms p1 True obtain b2 s5 where
      p2: "poll_event hw I2S_EVENTS_STOPPED ''ERROR: I2S STOPPED timeout!''
             (hw (reads s2) Millis + 100) ?s4 = Some (b2, s5)"
      by (auto simp: waitForCompletion_unfold split: option.splits)
    from poll_event_frame [OF p2] obtain k2 en2 where
      f2: "same_flags s2 s5" "audioBuffer s5 = audioBuffer s2" "firstCall s5 = firstCall s2"
      and t2: "trace s5 = trace s2 @ chunk_wait n @ replicate k2 Yield
               @ (if b2 then [] else timeout_report ''ERROR: I2S STOPPED timeout!'' en2)"
      by (auto simp: same_flags_def)
    show ?thesis
    proof (cases b2)
      case False
      with assms p1 p2 True have "s' = s5" by (simp add: waitForCompletion_unfold)
      with f1 f2 t1 t2 True False have "trace s' = trace s @ wait_effects n (StopTimeout k k2 en2)"
        "same_flags s s'" "audioBuffer s' = audioBuffer s" "firstCall s' = firstCall s"
        by (simp_all add: same_flags_def)
      then show ?thesis by blast
    next
      case b2: True
      with assms p1 p2 True have
        "s' = emit [RegWrite I2S_EVENTS_STOPPED (Lit 0), Println ''I2S chunk complete''] s5"
        by (simp add: waitForCompletion_unfold)
      with f1 f2 t1 t2 True b2 have "trace s' = trace s @ wait_effects n (Completed k k2)"
        "same_flags s s'" "audioBuffer s' = audioBuffer s" "firstCall s' = firstCall s"
        by (simp_all add: same_flags_def)
      then show ?thesis by blast
    qed
  qed
qed

lemma waitForCompletion_returns:
  assumes "bounded_waits_end hw"
  shows "\<exists>s'. waitForCompletion hw n s = Some s'"
proof -
  let ?s1 = "s\<lparr>reads := Suc (reads s)\<rparr>"
  from assms have "\<exists>k. exits_at hw I2S_EVENTS_TXPTRUPD (hw (reads s) Millis + 50) (reads ?s1) k"
    by (simp add: bounded_waits_end_def)
  from poll_event_returns [OF this] obtain b s2 where
    p1: "poll_event hw I2S_EVENTS_TXPTRUPD ''ERROR: I2S TXPTRUPD timeout!''
           (hw (reads s) Millis + 50) ?s1 = Some (b, s2)"
    by blast
  let ?s4 = "(emit (chunk_wait n) s2)\<lparr>reads := Suc (reads s2)\<rparr>"
  from assms have "\<exists>k. exits_at hw I2S_EVENTS_STOPPED (hw (reads s2) Millis + 100) (reads ?s4) k"
    by (simp add: bounded_waits_end_def)
  from poll_event_returns [OF this] obtain b2 s5 where
    p2: "poll_event hw I2S_EVENTS_STOPPED ''ERROR: I2S STOPPED timeout!''
             (hw (reads s2) Millis + 100) ?s4 = Some (b2, s5)"
    by blast
  from p1 p2 show ?thesis
    by (simp add: waitForCompletion_unfold)
qed

lemma writes_to_append [simp]: "writes_to r (xs @ ys) = writes_to r xs @ writes_to r ys"
  by (simp add: writes_to_def)

lemma delays_append [simp]: "delays (xs @ ys) = delays xs @ delays ys"
  by (simp add: delays_def)

lemma writes_to_Nil [simp]: "writes_to r [] = []"
  by (simp add: writes_to_def)

lemma delays_Nil [simp]: "delays [] = []"
  by (simp add: delays_def)

lemma writes_to_Cons:
  "writes_to r (e # es) =
     (case e of RegWrite r' v \<Rightarrow> if r' = r then [v] else [] | _ \<Rightarrow> []) @ writes_to r es"
  by (simp add: writes_to_def)

lemma delays_Cons:
  "delays (e # es) = (case e of Delay d \<Rightarrow> [d] | _ \<Rightarrow> []) @ delays es"
  by (simp add: delays_def)

lemma writes_to_Yields [simp]: "writes_to r (replicate k Yield) = []"
  by (induction k) (simp_all add: writes_to_Cons)

lemma delays_Yields [simp]: "delays (replicate k Yield) = []"
  by (induction k) (simp_all add: delays_Cons)

lemma serial_no_writes: "list_all is_serial es \<Longrightarrow> writes_to r es = []"
  by (induction es) (auto simp: writes_to_Cons is_serial_def split: effect.splits)

lemma wait_effects_writes:
  "writes_to I2S_RXTXD_MAXCNT (wait_effects n oc) = []"
  "writes_to I2S_TASKS_START (wait_effects n oc) = []"
  by (cases oc; simp add: writes_to_Cons timeout_report_def chunk_wait_def)+

lemma emitted_append: "trace s' = trace s @ out \<Longrightarrow> emitted s s' = out"
  by (simp add: emitted_def)

lemma unat_expectedDurationMs:
  "unat (expectedDurationMs n) = max 1 (unat n * 1000 div SAMPLE_RATE)"
proof -
  have up: "unat (ucast n :: 32 word) = unat n"
    by (simp add: unsigned_ucast_eq take_bit_nat_eq_self unsigned_less [of n, simplified]
          less_trans [OF unsigned_less [of n, simplified]])
  have "unat n < 65536" using unsigned_less [of n] by simp
  then have "unat n * 1000 < 2 ^ 32" by simp
  then have "unat ((ucast n :: 32 word) * 1000) = unat n * 1000"
    using up by (simp add: unat_word_ariths)
  then have e: "unat ((ucast n :: 32 word) * 1000 div 16000) = unat n * 1000 div 16000"
    by (simp add: unat_div)
  show ?thesis
  proof (cases "(ucast n :: 32 word) * 1000 div 16000 = 0")
    case True
    with e have "unat n * 1000 div 16000 = 0" by simp
    with True show ?thesis by (simp add: expectedDurationMs_def Let_def SAMPLE_RATE_def)
  next
    case False
    then have "unat ((ucast n :: 32 word) * 1000 div 16000) \<noteq> 0"
      by (simp add: unat_eq_0)
    with e False show ?thesis by (simp add: expectedDurationMs_def Let_def SAMPLE_RATE_def)
  qed
qed

lemma unat_sleep: "unat (expectedDurationMs n + 1) = unat (expectedDurationMs n) + 1"
proof -
  have "unat n < 65536" using unsigned_less [of n] by simp
  then have "unat n * 1000 div 16000 < 4096" by simp
  then have "unat (expectedDurationMs n) < 4096"
    by (simp add: unat_expectedDurationMs SAMPLE_RATE_def)
  then show ?thesis by (simp add: unat_word_ariths)
qed

lemma sleep_covers_chunk: "unat n * 1000 \<le> unat (expectedDurationMs n + 1) * SAMPLE_RATE"
proof -
  have "unat n * 1000 < (unat n * 1000 div 16000 + 1) * 16000"
    using dividend_less_times_div [of 16000 "unat n * 1000"] by simp
  also have "\<dots> \<le> (max 1 (unat n * 1000 div 16000) + 1) * 16000" by simp
  finally show ?thesis
    by (simp add: unat_sleep unat_expectedDurationMs SAMPLE_RATE_def)
qed

lemma prompt_wait:
  "waitForCompletion prompt_hw n s =
     Some (s\<lparr>reads := reads s + 4,
             trace := trace s @ chunk_wait n
               @ [RegWrite I2S_EVENTS_STOPPED (Lit 0), Println ''I2S chunk complete'']\<rparr>)"
proof -
  have p: "poll_event prompt_hw r msg t s0 = Some (True, s0\<lparr>reads := Suc (reads s0)\<rparr>)"
    for r msg t s0
    by (rule poll_event_seen) (simp add: prompt_hw_def)
  show ?thesis
    by (simp add: waitForCompletion_unfold p emit_def)
qed

text \<open>
  Claim C2 as stated fails on both counts. For 100 samples the code computes
  \<open>100 \<sqdot> 1000 div 16000 = 6\<close> ms, where the ceiling of 6.25 is 7. For the full chunk of 256
  samples, with both events seen at once, the one \<open>delay\<close> of the call is 17 ms, where
  the expected duration is 16 ms.
\<close>

theorem expectedDurationMs_ceiling_counterexample:
  "unat (expectedDurationMs 100) \<noteq> spec_expectedDurationMs 100
   \<and> delays (emitted (new_driver (\<lambda>i. 0) 0)
               (the (waitForCompletion prompt_hw 256 (new_driver (\<lambda>i. 0) 0))))
       \<noteq> [of_nat (spec_expectedDurationMs 256)]"
proof -
  have "unat (expectedDurationMs 100) \<noteq> spec_expectedDurationMs 100"
    by (simp add: expectedDurationMs_def spec_expectedDurationMs_def SAMPLE_RATE_def Let_def)
  moreover have "spec_expectedDurationMs 256 = 16"
    by (simp add: spec_expectedDurationMs_def SAMPLE_RATE_def)
  moreover have "expectedDurationMs 256 + 1 = 17"
    by (simp add: expectedDurationMs_def SAMPLE_RATE_def Let_def)
  then have "delays (emitted (new_driver (\<lambda>i. 0) 0)
               (the (waitForCompletion prompt_hw 256 (new_driver (\<lambda>i. 0) 0)))) = [17]"
    by (simp add: prompt_wait emitted_def chunk_wait_def delays_Cons)
  ultimately show ?thesis by simp
qed

text \<open>
  Claim C4. When the buffer-fetched event reads zero for \<open>k\<close> rounds with the clock not
  past the deadline (the clock read at entry plus 50), and reads zero again with the clock
  past the deadline, \<open>waitForCompletion\<close> returns having yielded \<open>k\<close> times and printed
  the error lines: it stores to no register (so not to \<open>TASKS_STOP\<close>) and calls no
  \<open>delay\<close>.
\<close>

theorem waitForCompletion_timeout:
  assumes "spins hw I2S_EVENTS_TXPTRUPD (hw (reads s) Millis + 50) (Suc (reads s)) k"
    and "hw (Suc (reads s) + 2 * k) (RegRead I2S_EVENTS_TXPTRUPD) = 0"
    and "hw (reads s) Millis + 50 < hw (Suc (reads s) + 2 * k + 1) Millis"
  shows "\<exists>s' en. waitForCompletion hw n s = Some s'
           \<and> emitted s s' = replicate k Yield
                @ [Println ''ERROR: I2S TXPTRUPD timeout!'', Print ''I2S ENABLE: '', PrintlnNum en]
           \<and> writes_to I2S_TASKS_STOP (emitted s s') = []
           \<and> list_all (\<lambda>e. \<not> is_reg_write e) (emitted s s')
           \<and> delays (emitted s s') = []"
proof -
  let ?s1 = "s\<lparr>reads := Suc (reads s)\<rparr>"
  let ?en = "uint (hw (reads ?s1 + 2 * k + 2) (RegRead I2S_ENABLE))"
  let ?out = "replicate k Yield
                @ [Println ''ERROR: I2S TXPTRUPD timeout!'', Print ''I2S ENABLE: '', PrintlnNum ?en]"
  let ?s' = "?s1\<lparr>reads := reads ?s1 + 2 * k + 3, trace := trace ?s1 @ ?out\<rparr>"
  from assms have
    "poll_event hw I2S_EVENTS_TXPTRUPD ''ERROR: I2S TXPTRUPD timeout!''
       (hw (reads s) Millis + 50) ?s1 = Some (False, ?s')"
    by (intro poll_event_timeout_after) simp_all
  then have ret: "waitForCompletion hw n s = Some ?s'"
    by (simp add: waitForCompletion_unfold)
  have em: "emitted s ?s' = ?out"
    by (rule emitted_append) simp
  have "writes_to I2S_TASKS_STOP ?out = []" "delays ?out = []"
    "list_all (\<lambda>e. \<not> is_reg_write e) ?out"
    by (simp_all add: writes_to_Cons delays_Cons is_reg_write_def list_all_iff)
  then have "waitForCompletion hw n s = Some ?s'
           \<and> emitted s ?s' = replicate k Yield
                @ [Println ''ERROR: I2S TXPTRUPD timeout!'', Print ''I2S ENABLE: '', PrintlnNum ?en]
           \<and> writes_to I2S_TASKS_STOP (emitted s ?s') = []
           \<and> list_all (\<lambda>e. \<not> is_reg_write e) (emitted s ?s')
           \<and> delays (emitted s ?s') = []"
    by (simp only: ret em simp_thms)
  then show ?thesis by (intro exI)
qed

theorem waitForCompletion_timeout_witness:
  "spins stalled_hw I2S_EVENTS_TXPTRUPD
     (stalled_hw (reads (new_driver (\<lambda>i. 0) 0)) Millis + 50) (Suc (reads (new_driver (\<lambda>i. 0) 0))) 2
   \<and> stalled_hw (Suc (reads (new_driver (\<lambda>i. 0) 0)) + 2 * 2) (RegRead I2S_EVENTS_TXPTRUPD) = 0
   \<and> stalled_hw (reads (new_driver (\<lambda>i. 0) 0)) Millis + 50
        < stalled_hw (Suc (reads (new_driver (\<lambda>i. 0) 0)) + 2 * 2 + 1) Millis
   \<and> (\<exists>s' en. waitForCompletion stalled_hw 256 (new_driver (\<lambda>i. 0) 0) = Some s'
           \<and> emitted (new_driver (\<lambda>i. 0) 0) s' = replicate 2 Yield
                @ [Println ''ERROR: I2S TXPTRUPD timeout!'', Print ''I2S ENABLE: '', PrintlnNum en]
           \<and> writes_to I2S_TASKS_STOP (emitted (new_driver (\<lambda>i. 0) 0) s') = []
           \<and> list_all (\<lambda>e. \<not> is_reg_write e) (emitted (new_driver (\<lambda>i. 0) 0) s')
           \<and> delays (emitted (new_driver (\<lambda>i. 0) 0) s') = [])"
proof -
  let ?s = "new_driver (\<lambda>i. 0) 0"
  have h1: "spins stalled_hw I2S_EVENTS_TXPTRUPD (stalled_hw (reads ?s) Millis + 50) (Suc (reads ?s)) 2"
    by (auto simp add: spins_def stalled_hw_def new_driver_def less_2_cases_iff)
  have h2: "stalled_hw (Suc (reads ?s) + 2 * 2) (RegRead I2S_EVENTS_TXPTRUPD) = 0"
    by (simp add: stalled_hw_def)
  have h3: "stalled_hw (reads ?s) Millis + 50 < stalled_hw (Suc (reads ?s) + 2 * 2 + 1) Millis"
    by (simp add: stalled_hw_def new_driver_def)
  from waitForCompletion_timeout [OF h1 h2 h3, of 256] h1 h2 h3 show ?thesis
    by (intro conjI)
qed

text \<open>
  Claim C2, as amended. The expected duration is \<open>sampleCount \<sqdot> 1000 div SAMPLE_RATE\<close>
  (rounded down), at least 1 ms. When the buffer-fetched event is seen after \<open>k\<close> rounds
  (and the second wait ends), \<open>waitForCompletion\<close> returns, and what it did begins with
  the \<open>k\<close> yields, the clearing of the event, one \<open>delay\<close> of the expected duration plus
  one millisecond, the progress line, and the store to \<open>TASKS_STOP\<close>; no other delay and
  no other stop follow. That sleep is never shorter than the chunk's playing time.
\<close>

theorem waitForCompletion_sleep:
  assumes "spins hw I2S_EVENTS_TXPTRUPD (hw (reads s) Millis + 50) (Suc (reads s)) k"
    and "hw (Suc (reads s) + 2 * k) (RegRead I2S_EVENTS_TXPTRUPD) \<noteq> 0"
    and "bounded_waits_end hw"
  shows "unat (expectedDurationMs n) = max 1 (unat n * 1000 div SAMPLE_RATE)
     \<and> unat (expectedDurationMs n + 1) = unat (expectedDurationMs n) + 1
     \<and> unat n * 1000 \<le> unat (expectedDurationMs n + 1) * SAMPLE_RATE
     \<and> (\<exists>s' rest. waitForCompletion hw n s = Some s'
           \<and> emitted s s' = replicate k Yield
                @ [RegWrite I2S_EVENTS_TXPTRUPD (Lit 0),
                   Delay (expectedDurationMs n + 1),
                   Print ''Chunk playback ms: '', PrintlnNum (uint (expectedDurationMs n)),
                   RegWrite I2S_TASKS_STOP (Lit 1)] @ rest
           \<and> writes_to I2S_TASKS_STOP rest = [] \<and> delays rest = [])"
proof -
  let ?s1 = "s\<lparr>reads := Suc (reads s)\<rparr>"
  let ?s2 = "?s1\<lparr>reads := reads ?s1 + 2 * k + 1, trace := trace ?s1 @ replicate k Yield\<rparr>"
  let ?s4 = "(emit (chunk_wait n) ?s2)\<lparr>reads := Suc (reads ?s2)\<rparr>"
  from assms(1,2) have
    p1: "poll_event hw I2S_EVENTS_TXPTRUPD ''ERROR: I2S TXPTRUPD timeout!''
       (hw (reads s) Millis + 50) ?s1 = Some (True, ?s2)"
    by (intro poll_event_seen_after) simp_all
  from assms(3) have
    "\<exists>k. exits_at hw I2S_EVENTS_STOPPED (hw (reads ?s2) Millis + 100) (reads ?s4) k"
    by (simp add: bounded_waits_end_def)
  from poll_event_returns [OF this] obtain b2 s5 where
    p2: "poll_event hw I2S_EVENTS_STOPPED ''ERROR: I2S STOPPED timeout!''
             (hw (reads ?s2) Millis + 100) ?s4 = Some (b2, s5)"
    by blast
  from poll_event_frame [OF p2] obtain k2 en2 where
    t2: "trace s5 = trace ?s4 @ replicate k2 Yield
               @ (if b2 then [] else timeout_report ''ERROR: I2S STOPPED timeout!'' en2)"
    by blast
  define rest where "rest = replicate k2 Yield
       @ (if b2 then [RegWrite I2S_EVENTS_STOPPED (Lit 0), Println ''I2S chunk complete'']
          else timeout_report ''ERROR: I2S STOPPED timeout!'' en2)"
  define s' where "s' = (if b2 then emit [RegWrite I2S_EVENTS_STOPPED (Lit 0),
                                     Println ''I2S chunk complete''] s5 else s5)"
  from p1 p2 have ret: "waitForCompletion hw n s = Some s'"
    by (simp add: waitForCompletion_unfold s'_def)
  from t2 have "trace s' = trace s @ replicate k Yield @ chunk_wait n @ rest"
    by (simp add: s'_def rest_def)
  then have em: "emitted s s' = replicate k Yield
                @ [RegWrite I2S_EVENTS_TXPTRUPD (Lit 0),
                   Delay (expectedDurationMs n + 1),
                   Print ''Chunk playback ms: '', PrintlnNum (uint (expectedDurationMs n)),
                   RegWrite I2S_TASKS_STOP (Lit 1)] @ rest"
    by (simp add: emitted_def chunk_wait_def)
  have "writes_to I2S_TASKS_STOP rest = []" "delays rest = []"
    by (simp_all add: rest_def writes_to_Cons delays_Cons timeout_report_def)
  with ret em have "\<exists>s' rest. waitForCompletion hw n s = Some s'
           \<and> emitted s s' = replicate k Yield
                @ [RegWrite I2S_EVENTS_TXPTRUPD (Lit 0),
                   Delay (expectedDurationMs n + 1),
                   Print ''Chunk playback ms: '', PrintlnNum (uint (expectedDurationMs n)),
                   RegWrite I2S_TASKS_STOP (Lit 1)] @ rest
           \<and> writes_to I2S_TASKS_STOP rest = [] \<and> delays rest = []"
    by blast
  with unat_expectedDurationMs unat_sleep sleep_covers_chunk show ?thesis
    by blast
qed

lemma prompt_hw_ends: "bounded_waits_end prompt_hw"
  by (simp add: bounded_waits_end_def exits_at_def prompt_hw_def)

theorem waitForCompletion_sleep_witness:
  "spins prompt_hw I2S_EVENTS_TXPTRUPD
     (prompt_hw (reads (new_driver (\<lambda>i. 0) 0)) Millis + 50) (Suc (reads (new_driver (\<lambda>i. 0) 0))) 0
   \<and> prompt_hw (Suc (reads (new_driver (\<lambda>i. 0) 0)) + 2 * 0) (RegRead I2S_EVENTS_TXPTRUPD) \<noteq> 0
   \<and> bounded_waits_end prompt_hw
   \<and> unat (expectedDurationMs 100) = 6
   \<and> unat (expectedDurationMs 100 + 1) = 7
   \<and> (\<exists>s' rest. waitForCompletion prompt_hw 100 (new_driver (\<lambda>i. 0) 0) = Some s'
           \<and> emitted (new_driver (\<lambda>i. 0) 0) s' = replicate 0 Yield
                @ [RegWrite I2S_EVENTS_TXPTRUPD (Lit 0),
                   Delay (expectedDurationMs 100 + 1),
                   Print ''Chunk playback ms: '', PrintlnNum (uint (expectedDurationMs 100)),
                   RegWrite I2S_TASKS_STOP (Lit 1)] @ rest
           \<and> writes_to I2S_TASKS_STOP rest = [] \<and> delays rest = [])"
proof -
  let ?s = "new_driver (\<lambda>i. 0) 0"
  have h1: "spins prompt_hw I2S_EVENTS_TXPTRUPD (prompt_hw (reads ?s) Millis + 50) (Suc (reads ?s)) 0"
    by (simp add: spins_def)
  have h2: "prompt_hw (Suc (reads ?s) + 2 * 0) (RegRead I2S_EVENTS_TXPTRUPD) \<noteq> 0"
    by (simp add: prompt_hw_def)
  note t = waitForCompletion_sleep [OF h1 h2 prompt_hw_ends, of 100]
  have "unat (expectedDurationMs 100) = 6" "unat (expectedDurationMs 100 + 1) = 7"
    using t by (simp_all add: SAMPLE_RATE_def)
  with t h1 h2 prompt_hw_ends show ?thesis
    by (intro conjI) blast+
qed

subsection \<open>Chunking\<close>

declare chunk_list.simps [simp del]

lemma unat_chunk_of: "unat (chunk_of t) = min (unat t) AUDIO_BUFFER_SIZE"
proof -
  have "unat (min t (256 :: 32 word)) = min (unat t) 256"
    by (simp add: min_def word_le_nat_alt)
  moreover have "take_bit 16 (min (unat t) 256) = min (unat t) 256"
    by (rule take_bit_nat_eq_self) (simp add: min_def)
  ultimately show ?thesis
    by (simp add: chunk_of_def AUDIO_BUFFER_SIZE_def unsigned_ucast_eq)
qed

lemma unat_ucast_chunk_of:
  "unat (ucast (chunk_of t) :: 32 word) = min (unat t) AUDIO_BUFFER_SIZE"
proof -
  have "take_bit 32 (min (unat t) 256) = min (unat t) 256"
    by (rule take_bit_nat_eq_self) (simp add: min_def)
  then show ?thesis
    by (simp add: unsigned_ucast_eq unat_chunk_of AUDIO_BUFFER_SIZE_def)
qed

lemma ucast_chunk_of: "(ucast (chunk_of t) :: 32 word) = of_nat (min (unat t) AUDIO_BUFFER_SIZE)"
  by (simp add: word_unat_eq_iff unat_ucast_chunk_of unat_of_nat AUDIO_BUFFER_SIZE_def min_def)

lemma chunk_of_eq: "chunk_of t = of_nat (min (unat t) AUDIO_BUFFER_SIZE)"
  by (simp add: word_unat_eq_iff unat_chunk_of unat_of_nat AUDIO_BUFFER_SIZE_def min_def)

lemma unat_remaining:
  "unat (t - ucast (chunk_of t) :: 32 word) = unat t - min (unat t) AUDIO_BUFFER_SIZE"
  by (simp add: unat_sub_if' unat_ucast_chunk_of)

lemma playTone_loop_done: "playTone_loop hw f v 0 s = Some s"
  by (subst playTone_loop.simps) simp

lemma playTone_loop_step:
  "t \<noteq> 0 \<Longrightarrow>
   playTone_loop hw f v t s =
     (case waitForCompletion hw (chunk_of t)
             (startTransfer (chunk_of t) (generateTone f (chunk_of t) v s)) of
        None \<Rightarrow> None
      | Some s' \<Rightarrow> playTone_loop hw f v (t - ucast (chunk_of t)) s')"
  by (subst playTone_loop.simps) (simp add: Let_def word_greater_zero_iff)

lemma chunk_list_0: "chunk_list 0 = []"
  by (subst chunk_list.simps) simp

lemma chunk_list_step:
  "n \<noteq> 0 \<Longrightarrow> chunk_list n = min n AUDIO_BUFFER_SIZE # chunk_list (n - min n AUDIO_BUFFER_SIZE)"
  by (subst chunk_list.simps) simp

lemma chunk_list_closed:
  "chunk_list n = replicate (n div AUDIO_BUFFER_SIZE) AUDIO_BUFFER_SIZE
                  @ (if n mod AUDIO_BUFFER_SIZE = 0 then [] else [n mod AUDIO_BUFFER_SIZE])"
proof (induction n rule: less_induct)
  case (less n)
  show ?case
  proof (cases "n = 0")
    case True
    then show ?thesis by (simp add: chunk_list_0)
  next
    case False
    show ?thesis
    proof (cases "n < AUDIO_BUFFER_SIZE")
      case True
      with False show ?thesis
        by (simp add: chunk_list_step chunk_list_0 min_def)
    next
      case big: False
      then have m: "min n AUDIO_BUFFER_SIZE = AUDIO_BUFFER_SIZE" by simp
      have lt: "n - AUDIO_BUFFER_SIZE < n" using False by (simp add: AUDIO_BUFFER_SIZE_def)
      from big have d: "n div AUDIO_BUFFER_SIZE = Suc ((n - AUDIO_BUFFER_SIZE) div AUDIO_BUFFER_SIZE)"
        by (simp add: AUDIO_BUFFER_SIZE_def le_div_geq)
      from big have md: "n mod AUDIO_BUFFER_SIZE = (n - AUDIO_BUFFER_SIZE) mod AUDIO_BUFFER_SIZE"
        by (simp add: AUDIO_BUFFER_SIZE_def le_mod_geq)
      from less.IH [OF lt] False show ?thesis
        by (simp add: chunk_list_step m d md)
    qed
  qed
qed

lemma ceil_div_256: "(n + 255) div 256 = n div 256 + (if n mod 256 = 0 then 0 else (1::nat))"
proof -
  define q r where "q = n div 256" and "r = n mod 256"
  have n: "n = q * 256 + r" and r: "r < 256" by (simp_all add: q_def r_def)
  have "(q * 256 + r + 255) div 256 = q + (r + 255) div 256"
    by (simp add: add.assoc)
  moreover have "(r + 255) div 256 = (if r = 0 then 0 else 1)"
    using r by (simp add: div_eq_0_iff Suc_le_eq; simp add: div_nat_eqI)
  ultimately show ?thesis
    unfolding n [symmetric] q_def [symmetric] r_def [symmetric] by simp
qed

lemma length_chunk_list:
  "length (chunk_list n) = (n + AUDIO_BUFFER_SIZE - 1) div AUDIO_BUFFER_SIZE"
proof -
  have "length (chunk_list n) = n div 256 + (if n mod 256 = 0 then 0 else 1)"
    by (simp add: chunk_list_closed AUDIO_BUFFER_SIZE_def)
  also have "\<dots> = (n + 255) div 256" by (rule ceil_div_256 [symmetric])
  finally show ?thesis by (simp add: AUDIO_BUFFER_SIZE_def)
qed

lemma playTone_loop_run_chunks:
  "playTone_loop hw f v t s = run_chunks hw f v (map of_nat (chunk_list (unat t))) s"
proof (induction "unat t" arbitrary: t s rule: less_induct)
  case less
  show ?case
  proof (cases "t = 0")
    case True
    then show ?thesis by (simp add: playTone_loop_done chunk_list_0)
  next
    case False
    then have nz: "unat t \<noteq> 0" by (simp add: unat_eq_0)
    then have lt: "unat (t - ucast (chunk_of t)) < unat t"
      by (simp add: unat_remaining AUDIO_BUFFER_SIZE_def min_def)
    show ?thesis
      using less [OF lt] nz
      by (simp add: playTone_loop_step [OF False] chunk_list_step [of "unat t"]
            chunk_of_eq [symmetric] unat_remaining split: option.splits)
  qed
qed

lemma constrain_nat:
  "constrain (int n) 1 (int MAX_TONE_DURATION_MS) = int (max 1 (min MAX_TONE_DURATION_MS n))"
  by (simp add: constrain_def MAX_TONE_DURATION_MS_def min_def max_def)

lemma unat_clamped_duration:
  "unat (clamped_duration d) = max 1 (min MAX_TONE_DURATION_MS (unat d))"
proof -
  define m where "m = max 1 (min MAX_TONE_DURATION_MS (unat d))"
  have "uint d = int (unat d)" by (rule uint_nat)
  then have c: "clamped_duration d = word_of_int (int m)"
    unfolding clamped_duration_def m_def by (simp only: constrain_nat)
  have "m < 2 ^ 16"
    by (simp add: m_def MAX_TONE_DURATION_MS_def min_def max_def)
  then have "unat (word_of_nat m :: 16 word) = m"
    by (simp add: unat_of_nat)
  then show ?thesis
    unfolding c m_def [symmetric] by simp
qed

lemma unat_total_samples:
  "unat (total_samples d) = SAMPLE_RATE * unat (clamped_duration d) div 1000"
proof -
  have le: "unat (clamped_duration d) \<le> 2000"
    by (simp add: unat_clamped_duration MAX_TONE_DURATION_MS_def)
  have up: "unat (ucast (clamped_duration d) :: 32 word) = unat (clamped_duration d)"
    using le by (simp add: unsigned_ucast_eq take_bit_nat_eq_self)
  have "16000 * unat (clamped_duration d) < 2 ^ 32" using le by simp
  then have "unat ((16000 :: 32 word) * ucast (clamped_duration d)) = 16000 * unat (clamped_duration d)"
    using up by (simp add: unat_word_ariths)
  then show ?thesis
    by (simp add: total_samples_def SAMPLE_RATE_def unat_div)
qed

subsection \<open>The chunk loop of playTone\<close>

lemma same_flags_refl [simp]: "same_flags s s"
  by (simp add: same_flags_def)

lemma same_flags_trans: "same_flags a b \<Longrightarrow> same_flags b c \<Longrightarrow> same_flags a c"
  by (simp add: same_flags_def)

lemma same_flags_emit [simp]: "same_flags s (emit es s)"
  by (simp add: same_flags_def)

lemma debug_is_serial: "list_all is_debug es \<Longrightarrow> list_all is_serial es"
  by (simp add: list_all_iff is_debug_def)

lemma debug_not_delay: "list_all is_debug es \<Longrightarrow> Delay d \<notin> set es"
  by (auto simp: list_all_iff is_debug_def is_serial_def)

lemma debug_not_announce: "list_all is_debug es \<Longrightarrow> Print ''Playing tone: '' \<notin> set es"
  by (auto simp: list_all_iff is_debug_def)

lemma startTransfer_fields [simp]:
  "audioBuffer (startTransfer c s) = audioBuffer s"
  "initialized (startTransfer c s) = initialized s"
  "playing (startTransfer c s) = playing s"
  "firstCall (startTransfer c s) = firstCall s"
  "bufferAddress (startTransfer c s) = bufferAddress s"
  "fpu (startTransfer c s) = fpu s"
  "reads (startTransfer c s) = reads s"
  by (simp_all add: startTransfer_def)

lemma startTransfer_trace:
  "trace (startTransfer c s) = trace s @ start_effects c (bufferAddress s)"
  by (simp add: startTransfer_def start_effects_def)

lemma start_effects_facts:
  "writes_to I2S_RXTXD_MAXCNT (start_effects c a) = [Lit (ucast c)]"
  "writes_to I2S_TASKS_START (start_effects c a) = [Lit 1]"
  "Delay d \<notin> set (start_effects c a)"
  "Print ''Playing tone: '' \<notin> set (start_effects c a)"
  by (simp_all add: start_effects_def writes_to_Cons)

lemma wait_effects_no_gap:
  assumes "unat n \<le> AUDIO_BUFFER_SIZE"
  shows "Delay 20 \<notin> set (wait_effects n oc)"
proof -
  from assms have "unat n * 1000 div 16000 \<le> 16" by (simp add: AUDIO_BUFFER_SIZE_def)
  then have "unat (expectedDurationMs n + 1) \<le> 17"
    by (simp add: unat_sleep unat_expectedDurationMs SAMPLE_RATE_def)
  then have "expectedDurationMs n + 1 \<noteq> 20" by auto
  then show ?thesis
    by (cases oc) (auto simp: timeout_report_def chunk_wait_def)
qed

lemma wait_effects_no_announce: "Print ''Playing tone: '' \<notin> set (wait_effects n oc)"
  by (cases oc) (auto simp: timeout_report_def chunk_wait_def)

lemma chunk_effects:
  assumes "waitForCompletion hw c (startTransfer c (generateTone f c v s)) = Some s'"
    and "unat c \<le> AUDIO_BUFFER_SIZE"
  shows "same_flags s s' \<and> (\<exists>out. trace s' = trace s @ out \<and> chunk_round c out)"
proof -
  let ?g = "generateTone f c v s"
  from generateTone_trace obtain og where
    og: "trace ?g = trace s @ og" "list_all is_debug og" by blast
  from waitForCompletion_frame [OF assms(1)] obtain oc where
    fl: "same_flags (startTransfer c ?g) s'"
    and tr: "trace s' = trace (startTransfer c ?g) @ wait_effects c oc"
    by blast
  have "same_flags s ?g" using generateTone_flags by blast
  moreover have "same_flags ?g (startTransfer c ?g)" by (simp add: same_flags_def)
  ultimately have flags: "same_flags s s'" using fl by (blast intro: same_flags_trans)
  let ?out = "og @ start_effects c (bufferAddress ?g) @ wait_effects c oc"
  from tr og have t: "trace s' = trace s @ ?out"
    by (simp add: startTransfer_trace)
  have "chunk_round c ?out"
    unfolding chunk_round_def
    using og(2) wait_effects_no_gap [OF assms(2), of oc]
    by (simp add: serial_no_writes [OF debug_is_serial] debug_not_delay debug_not_announce
          start_effects_facts wait_effects_writes wait_effects_no_announce)
  with flags t show ?thesis by blast
qed

lemma playTone_loop_effects:
  "playTone_loop hw f v t s = Some s' \<Longrightarrow>
   same_flags s s' \<and> (\<exists>out. trace s' = trace s @ out \<and> chunk_rounds (chunk_list (unat t)) out)"
proof (induction "unat t" arbitrary: t s rule: less_induct)
  case less
  show ?case
  proof (cases "t = 0")
    case True
    with less.prems have "s' = s" by (simp add: playTone_loop_done)
    with True show ?thesis by (simp add: chunk_rounds_def chunk_list_0)
  next
    case False
    then have nz: "unat t \<noteq> 0" by (simp add: unat_eq_0)
    then have lt: "unat (t - ucast (chunk_of t)) < unat t"
      by (simp add: unat_remaining AUDIO_BUFFER_SIZE_def min_def)
    from less.prems obtain s1 where
      w: "waitForCompletion hw (chunk_of t)
            (startTransfer (chunk_of t) (generateTone f (chunk_of t) v s)) = Some s1"
      and r: "playTone_loop hw f v (t - ucast (chunk_of t)) s1 = Some s'"
      by (auto simp: playTone_loop_step [OF False] split: option.splits)
    have "unat (chunk_of t) \<le> AUDIO_BUFFER_SIZE" by (simp add: unat_chunk_of)
    from chunk_effects [OF w this] obtain o1 where
      f1: "same_flags s s1" and t1: "trace s1 = trace s @ o1" and c1: "chunk_round (chunk_of t) o1"
      by blast
    from less.hyps [OF lt r, unfolded unat_remaining] obtain o2 where
      f2: "same_flags s1 s'" and t2: "trace s' = trace s1 @ o2"
      and c2: "chunk_rounds (chunk_list (unat t - min (unat t) AUDIO_BUFFER_SIZE)) o2"
      by blast
    have "chunk_rounds (chunk_list (unat t)) (o1 @ o2)"
      using c1 c2 nz
      by (simp add: chunk_round_def chunk_rounds_def chunk_list_step [of "unat t"]
            ucast_chunk_of)
    moreover have "trace s' = trace s @ o1 @ o2" using t1 t2 by simp
    ultimately show ?thesis using same_flags_trans [OF f1 f2] by blast
  qed
qed

lemma playTone_loop_returns:
  assumes "bounded_waits_end hw"
  shows "\<exists>s'. playTone_loop hw f v t s = Some s'"
proof (induction "unat t" arbitrary: t s rule: less_induct)
  case less
  show ?case
  proof (cases "t = 0")
    case True
    then show ?thesis by (simp add: playTone_loop_done)
  next
    case False
    then have nz: "unat t \<noteq> 0" by (simp add: unat_eq_0)
    then have lt: "unat (t - ucast (chunk_of t)) < unat t"
      by (simp add: unat_remaining AUDIO_BUFFER_SIZE_def min_def)
    from waitForCompletion_returns [OF assms] obtain s1 where
      "waitForCompletion hw (chunk_of t)
            (startTransfer (chunk_of t) (generateTone f (chunk_of t) v s)) = Some s1"
      by blast
    with less.hyps [OF lt, of s1] show ?thesis
      by (simp add: playTone_loop_step [OF False])
  qed
qed

subsection \<open>playTone\<close>

lemma playTone_uninitialized:
  "\<not> initialized s \<Longrightarrow>
   playTone hw f d v s = Some (emit [Println ''ERROR: I2S not initialized''] s)"
  by (simp add: playTone_def)

lemma playTone_unfold:
  "initialized s \<Longrightarrow>
   playTone hw f d v s =
     (case playTone_loop hw f v (total_samples d) ((emit (announce f d v) s)\<lparr>playing := True\<rparr>) of
        None \<Rightarrow> None
      | Some s3 \<Rightarrow> Some (s3\<lparr>playing := False\<rparr>))"
  by (simp add: playTone_def Let_def announce_def total_samples_def clamped_duration_def)

lemma playTone_effects:
  assumes "initialized s" and "playTone hw f d v s = Some s'"
  shows "\<not> playing s' \<and> initialized s' \<and> bufferAddress s' = bufferAddress s
         \<and> (\<exists>out. trace s' = trace s @ announce f d v @ out
                   \<and> chunk_rounds (chunk_list (unat (total_samples d))) out)"
proof -
  let ?s2 = "(emit (announce f d v) s)\<lparr>playing := True\<rparr>"
  from assms obtain s3 where
    l: "playTone_loop hw f v (total_samples d) ?s2 = Some s3" and s': "s' = s3\<lparr>playing := False\<rparr>"
    by (auto simp: playTone_unfold split: option.splits)
  from playTone_loop_effects [OF l] obtain out where
    "same_flags ?s2 s3" "trace s3 = trace ?s2 @ out"
    "chunk_rounds (chunk_list (unat (total_samples d))) out"
    by blast
  with s' assms(1) show ?thesis
    by (auto simp: same_flags_def)
qed

lemma playTone_returns:
  assumes "bounded_waits_end hw"
  shows "\<exists>s'. playTone hw f d v s = Some s'"
proof (cases "initialized s")
  case True
  from playTone_loop_returns [OF assms] obtain s3 where
    "playTone_loop hw f v (total_samples d) ((emit (announce f d v) s)\<lparr>playing := True\<rparr>) = Some s3"
    by blast
  with True show ?thesis by (simp add: playTone_unfold)
next
  case False
  then show ?thesis by (simp add: playTone_uninitialized)
qed

lemma playTone_idle:
  assumes "playTone hw f d v s = Some s'" and "\<not> playing s"
  shows "\<not> playing s'"
proof (cases "initialized s")
  case True
  from playTone_effects [OF True assms(1)] show ?thesis by blast
next
  case False
  with assms show ?thesis by (auto simp: playTone_uninitialized)
qed

lemma total_samples_eq: "unat (total_samples d) = 16 * max 1 (min MAX_TONE_DURATION_MS (unat d))"
  by (simp add: unat_total_samples unat_clamped_duration SAMPLE_RATE_def)

lemma ready_driver_fields [simp]:
  "initialized ready_driver" "\<not> playing ready_driver" "trace ready_driver = []"
  "reads ready_driver = 0"
  by (simp_all add: ready_driver_def new_driver_def)

subsection \<open>Chunks of a tone\<close>

lemma announce_no_writes [simp]: "writes_to r (announce f d v) = []"
  by (simp add: announce_def writes_to_Cons)

lemma chunk_list_one_second: "chunk_list 16000 = replicate 62 256 @ [128]"
  by (simp add: chunk_list_closed AUDIO_BUFFER_SIZE_def)

lemma chunk_list_one_ms: "chunk_list 16 = [16]"
  by (simp add: chunk_list_closed AUDIO_BUFFER_SIZE_def)

lemma clamped_duration_0: "clamped_duration 0 = 1"
  by (simp add: clamped_duration_def constrain_def MAX_TONE_DURATION_MS_def)

lemma clamped_duration_1: "clamped_duration 1 = 1"
  by (simp add: clamped_duration_def constrain_def MAX_TONE_DURATION_MS_def)

lemma playTone_trace:
  assumes "initialized s" and "bounded_waits_end hw"
  shows "\<exists>s'. playTone hw f d v s = Some s'
           \<and> writes_to I2S_RXTXD_MAXCNT (emitted s s')
               = map (\<lambda>c. Lit (of_nat c)) (chunk_list (unat (total_samples d)))
           \<and> writes_to I2S_TASKS_START (emitted s s')
               = replicate (length (chunk_list (unat (total_samples d)))) (Lit 1)"
proof -
  from playTone_returns [OF assms(2)] obtain s' where r: "playTone hw f d v s = Some s'"
    by blast
  from playTone_effects [OF assms(1) r] obtain out where
    t: "trace s' = trace s @ announce f d v @ out"
    and c: "chunk_rounds (chunk_list (unat (total_samples d))) out"
    by blast
  from t have "emitted s s' = announce f d v @ out" by (simp add: emitted_def)
  with c r show ?thesis by (simp add: chunk_rounds_def)
qed

text \<open>
  Claim C6. On an initialized driver whose bounded waits end, \<open>playTone\<close> returns. With
  \<open>D\<close> the clamped duration it computes \<open>SAMPLE_RATE \<sqdot> D div 1000\<close> samples; its chunk
  loop is the loop body (synthesize, start, await) run once for each size in the list
  "smaller of remaining and capacity", whose length is the count divided by the capacity,
  rounded up; the word counts stored to \<open>RXTXD.MAXCNT\<close> are those sizes in order, and
  \<open>TASKS_START\<close> is stored to once per chunk. For 1000 ms that is 62 chunks of 256 and a
  last one of 128.
\<close>

theorem playTone_chunks:
  assumes "initialized s" and "bounded_waits_end hw"
  shows "\<exists>s'. playTone hw f d v s = Some s'
     \<and> unat (total_samples d) = SAMPLE_RATE * unat (clamped_duration d) div 1000
     \<and> writes_to I2S_RXTXD_MAXCNT (emitted s s')
         = map (\<lambda>c. Lit (of_nat c)) (chunk_list (unat (total_samples d)))
     \<and> writes_to I2S_TASKS_START (emitted s s')
         = replicate ((unat (total_samples d) + AUDIO_BUFFER_SIZE - 1) div AUDIO_BUFFER_SIZE) (Lit 1)
     \<and> length (chunk_list (unat (total_samples d)))
         = (unat (total_samples d) + AUDIO_BUFFER_SIZE - 1) div AUDIO_BUFFER_SIZE
     \<and> playTone_loop hw f v (total_samples d) ((emit (announce f d v) s)\<lparr>playing := True\<rparr>)
         = run_chunks hw f v (map of_nat (chunk_list (unat (total_samples d))))
             ((emit (announce f d v) s)\<lparr>playing := True\<rparr>)
     \<and> (d = 1000 \<longrightarrow>
          writes_to I2S_RXTXD_MAXCNT (emitted s s') = replicate 62 (Lit 256) @ [Lit 128])"
proof -
  from playTone_trace [OF assms, of f d v] obtain s' where
    r: "playTone hw f d v s = Some s'"
    and m: "writes_to I2S_RXTXD_MAXCNT (emitted s s')
               = map (\<lambda>c. Lit (of_nat c)) (chunk_list (unat (total_samples d)))"
    and st: "writes_to I2S_TASKS_START (emitted s s')
               = replicate (length (chunk_list (unat (total_samples d)))) (Lit 1)"
    by blast
  have sec: "d = 1000 \<longrightarrow>
          writes_to I2S_RXTXD_MAXCNT (emitted s s') = replicate 62 (Lit 256) @ [Lit 128]"
  proof
    assume "d = 1000"
    then have "unat (total_samples d) = 16000"
      by (simp add: total_samples_eq MAX_TONE_DURATION_MS_def)
    with m show "writes_to I2S_RXTXD_MAXCNT (emitted s s') = replicate 62 (Lit 256) @ [Lit 128]"
      by (simp add: chunk_list_one_second)
  qed
  from st have st': "writes_to I2S_TASKS_START (emitted s s')
         = replicate ((unat (total_samples d) + AUDIO_BUFFER_SIZE - 1) div AUDIO_BUFFER_SIZE) (Lit 1)"
    by (simp only: length_chunk_list)
  show ?thesis
  proof (intro exI [of _ s'] conjI)
    show "playTone hw f d v s = Some s'" by (rule r)
    show "unat (total_samples d) = SAMPLE_RATE * unat (clamped_duration d) div 1000"
      by (rule unat_total_samples)
    show "writes_to I2S_RXTXD_MAXCNT (emitted s s')
         = map (\<lambda>c. Lit (of_nat c)) (chunk_list (unat (total_samples d)))" by (rule m)
    show "writes_to I2S_TASKS_START (emitted s s')
         = replicate ((unat (total_samples d) + AUDIO_BUFFER_SIZE - 1) div AUDIO_BUFFER_SIZE) (Lit 1)"
      by (rule st')
    show "length (chunk_list (unat (total_samples d)))
         = (unat (total_samples d) + AUDIO_BUFFER_SIZE - 1) div AUDIO_BUFFER_SIZE"
      by (rule length_chunk_list)
    show "playTone_loop hw f v (total_samples d) ((emit (announce f d v) s)\<lparr>playing := True\<rparr>)
         = run_chunks hw f v (map of_nat (chunk_list (unat (total_samples d))))
             ((emit (announce f d v) s)\<lparr>playing := True\<rparr>)"
      by (rule playTone_loop_run_chunks)
    show "d = 1000 \<longrightarrow>
          writes_to I2S_RXTXD_MAXCNT (emitted s s') = replicate 62 (Lit 256) @ [Lit 128]"
      by (rule sec)
  qed
qed

theorem playTone_chunks_witness:
  "initialized ready_driver \<and> bounded_waits_end prompt_hw
   \<and> (\<exists>s'. playTone prompt_hw 440 1000 50 ready_driver = Some s'
        \<and> writes_to I2S_RXTXD_MAXCNT (emitted ready_driver s') = replicate 62 (Lit 256) @ [Lit 128]
        \<and> writes_to I2S_TASKS_START (emitted ready_driver s') = replicate 63 (Lit 1))"
proof -
  have h: "initialized ready_driver" by simp
  have t: "unat (total_samples 1000) = 16000"
    by (simp add: total_samples_eq MAX_TONE_DURATION_MS_def)
  from playTone_chunks [OF h prompt_hw_ends, of 440 1000 50] obtain s' where
    "playTone prompt_hw 440 1000 50 ready_driver = Some s'"
    "writes_to I2S_RXTXD_MAXCNT (emitted ready_driver s') = replicate 62 (Lit 256) @ [Lit 128]"
    "writes_to I2S_TASKS_START (emitted ready_driver s')
         = replicate ((unat (total_samples 1000) + AUDIO_BUFFER_SIZE - 1) div AUDIO_BUFFER_SIZE) (Lit 1)"
    by blast
  then have "\<exists>s'. playTone prompt_hw 440 1000 50 ready_driver = Some s'
        \<and> writes_to I2S_RXTXD_MAXCNT (emitted ready_driver s') = replicate 62 (Lit 256) @ [Lit 128]
        \<and> writes_to I2S_TASKS_START (emitted ready_driver s') = replicate 63 (Lit 1)"
    by (simp add: t AUDIO_BUFFER_SIZE_def)
  with h prompt_hw_ends show ?thesis by blast
qed

text \<open>
  Claim C10. \<open>playTone\<close> clamps the duration from below as well as from above: the
  duration it works with is the requested one brought into 1 .. 2000. A call with
  duration 0 behaves as the call with duration 1: on an initialized driver whose bounded
  waits end it returns having transferred one chunk of 16 samples, one millisecond of
  tone at 16 kHz.
\<close>

theorem playTone_zero_duration:
  assumes "initialized s" and "bounded_waits_end hw"
  shows "unat (clamped_duration d) = max 1 (min MAX_TONE_DURATION_MS (unat d))
     \<and> clamped_duration 0 = 1
     \<and> unat (total_samples 0) = SAMPLE_RATE div 1000
     \<and> playTone hw f 0 v s = playTone hw f 1 v s
     \<and> (\<exists>s'. playTone hw f 0 v s = Some s'
           \<and> writes_to I2S_RXTXD_MAXCNT (emitted s s') = [Lit 16]
           \<and> writes_to I2S_TASKS_START (emitted s s') = [Lit 1])"
proof -
  have t0: "unat (total_samples 0) = 16"
    by (simp add: total_samples_eq MAX_TONE_DURATION_MS_def)
  have same: "playTone hw f 0 v s = playTone hw f 1 v s"
    using assms(1)
    by (simp add: playTone_unfold announce_def total_samples_def clamped_duration_0
          clamped_duration_1)
  from playTone_trace [OF assms, of f 0 v] have
    "\<exists>s'. playTone hw f 0 v s = Some s'
           \<and> writes_to I2S_RXTXD_MAXCNT (emitted s s') = [Lit 16]
           \<and> writes_to I2S_TASKS_START (emitted s s') = [Lit 1]"
    by (simp add: t0 chunk_list_one_ms)
  with same t0 unat_clamped_duration clamped_duration_0 show ?thesis
    by (simp add: SAMPLE_RATE_def)
qed

theorem playTone_zero_duration_witness:
  "initialized ready_driver \<and> bounded_waits_end prompt_hw
   \<and> (\<exists>s'. playTone prompt_hw 440 0 50 ready_driver = Some s'
           \<and> writes_to I2S_RXTXD_MAXCNT (emitted ready_driver s') = [Lit 16]
           \<and> s' \<noteq> ready_driver)"
proof -
  have h: "initialized ready_driver" by simp
  from playTone_zero_duration [OF h prompt_hw_ends, of 0 440 50] obtain s' where
    r: "playTone prompt_hw 440 0 50 ready_driver = Some s'"
    and m: "writes_to I2S_RXTXD_MAXCNT (emitted ready_driver s') = [Lit 16]"
    by blast
  have "s' \<noteq> ready_driver"
  proof
    assume "s' = ready_driver"
    with m show False by (simp add: emitted_def)
  qed
  with r m h prompt_hw_ends show ?thesis by blast
qed

subsection \<open>configureI2S and begin\<close>

lemma wait_hfclk_seen:
  "hw (reads s) (RegRead CLOCK_EVENTS_HFCLKSTARTED) \<noteq> 0 \<Longrightarrow>
   wait_hfclk hw s = Some (s\<lparr>reads := Suc (reads s)\<rparr>)"
  by (subst wait_hfclk.simps) (simp add: volatile_read_def)

lemma wait_hfclk_again:
  "hw (reads s) (RegRead CLOCK_EVENTS_HFCLKSTARTED) = 0 \<Longrightarrow>
   wait_hfclk hw s = wait_hfclk hw (s\<lparr>reads := Suc (reads s)\<rparr>)"
  by (subst wait_hfclk.simps) (simp add: volatile_read_def)

lemma wait_hfclk_returns_at:
  "hw (reads s + k) (RegRead CLOCK_EVENTS_HFCLKSTARTED) \<noteq> 0 \<Longrightarrow>
   \<exists>j. wait_hfclk hw s = Some (s\<lparr>reads := Suc (reads s + j)\<rparr>)"
proof (induction k arbitrary: s)
  case 0
  then have "wait_hfclk hw s = Some (s\<lparr>reads := Suc (reads s + 0)\<rparr>)"
    by (simp add: wait_hfclk_seen)
  then show ?case by blast
next
  case (Suc k)
  show ?case
  proof (cases "hw (reads s) (RegRead CLOCK_EVENTS_HFCLKSTARTED) = 0")
    case True
    let ?s1 = "s\<lparr>reads := Suc (reads s)\<rparr>"
    from Suc.prems have "hw (reads ?s1 + k) (RegRead CLOCK_EVENTS_HFCLKSTARTED) \<noteq> 0" by simp
    from Suc.IH [of ?s1, OF this] obtain j where
      "wait_hfclk hw ?s1 = Some (?s1\<lparr>reads := Suc (reads ?s1 + j)\<rparr>)" by blast
    then have "wait_hfclk hw s = Some (s\<lparr>reads := Suc (reads s + Suc j)\<rparr>)"
      using wait_hfclk_again [of hw s] True by simp
    then show ?thesis by blast
  next
    case False
    then have "wait_hfclk hw s = Some (s\<lparr>reads := Suc (reads s + 0)\<rparr>)"
      by (simp add: wait_hfclk_seen)
    then show ?thesis by blast
  qed
qed

lemma wait_hfclk_frame:
  assumes "wait_hfclk hw s = Some s'"
  shows "\<exists>n. s' = s\<lparr>reads := n\<rparr>"
  using assms
proof (induction rule: wait_hfclk.raw_induct [rotated, consumes 1, case_names step])
  case (step wait hw s s')
  show ?case
  proof (cases "hw (reads s) (RegRead CLOCK_EVENTS_HFCLKSTARTED) = 0")
    case True
    with step(2) have "wait hw (s\<lparr>reads := Suc (reads s)\<rparr>) = Some s'"
      by (simp add: volatile_read_def)
    from step(1) [OF this] show ?thesis by auto
  next
    case False
    with step(2) have "s' = s\<lparr>reads := Suc (reads s)\<rparr>" by (simp add: volatile_read_def)
    then show ?thesis by blast
  qed
qed

lemma configureI2S_frame:
  assumes "configureI2S hw s = Some s'"
  shows "same_flags s s' \<and> audioBuffer s' = audioBuffer s \<and> firstCall s' = firstCall s
         \<and> (\<exists>out. trace s' = trace s @ out \<and> writes_to I2S_ENABLE out = [Lit 0, Lit 1])"
proof -
  let ?s0 = "emit [RegWrite CLOCK_EVENTS_HFCLKSTARTED (Lit 0),
                    RegWrite CLOCK_TASKS_HFCLKSTART (Lit 1)] s"
  from assms obtain s1 where w: "wait_hfclk hw ?s0 = Some s1"
    by (auto simp: configureI2S_def split: option.splits)
  from wait_hfclk_frame [OF w] obtain n where s1: "s1 = ?s0\<lparr>reads := n\<rparr>" by blast
  from assms w show ?thesis
    unfolding s1
    by (auto simp add: configureI2S_def Let_def volatile_read_def same_flags_def writes_to_Cons)
qed

lemma configureI2S_returns:
  assumes "clock_starts hw (reads s)"
  shows "\<exists>s'. configureI2S hw s = Some s'"
proof -
  let ?s0 = "emit [RegWrite CLOCK_EVENTS_HFCLKSTARTED (Lit 0),
                    RegWrite CLOCK_TASKS_HFCLKSTART (Lit 1)] s"
  from assms obtain k where "hw (reads ?s0 + k) (RegRead CLOCK_EVENTS_HFCLKSTARTED) \<noteq> 0"
    by (auto simp: clock_starts_def)
  from wait_hfclk_returns_at [of hw ?s0 k, OF this] obtain j where
    "wait_hfclk hw ?s0 = Some (?s0\<lparr>reads := Suc (reads ?s0 + j)\<rparr>)" by blast
  then show ?thesis
    by (simp add: configureI2S_def Let_def volatile_read_def)
qed

lemma begin_driver_initialized:
  "initialized s \<Longrightarrow>
   begin_driver hw s = Some (True, emit [Println ''I2S already initialized''] s)"
  by (simp add: begin_driver_def)

lemma begin_driver_first:
  assumes "\<not> initialized s" and "begin_driver hw s = Some (ok, s')"
  shows "ok \<and> initialized s' \<and> playing s' = playing s \<and> bufferAddress s' = bufferAddress s
         \<and> audioBuffer s' = audioBuffer s
         \<and> (\<exists>out. trace s' = trace s @ out \<and> writes_to I2S_ENABLE out = [Lit 0, Lit 1])"
proof -
  let ?s0 = "emit [Println ''Configuring I2S peripheral...''] s"
  from assms obtain s1 where c: "configureI2S hw ?s0 = Some s1"
    by (auto simp: begin_driver_def split: option.splits)
  from configureI2S_frame [OF c] obtain out where
    f: "same_flags ?s0 s1" "audioBuffer s1 = audioBuffer ?s0"
    and t: "trace s1 = trace ?s0 @ out" and w: "writes_to I2S_ENABLE out = [Lit 0, Lit 1]"
    by blast
  let ?rest = "[PinModeOutput SD_MODE_PIN, DigitalWrite SD_MODE_PIN True,
                Delay 10, Print ''SD_MODE pin (D6) state: '',
                Println (if hw (reads s1) (DigitalRead SD_MODE_PIN) \<noteq> 0
                         then ''HIGH (amplifier enabled)'' else ''LOW (amplifier disabled!)''),
                Println ''I2S initialized successfully'',
                Print ''Sample Rate: '', PrintNum (int SAMPLE_RATE), Println '' Hz'']"
  from assms c have ok: "ok" and s': "initialized s'" "playing s' = playing s1"
    "bufferAddress s' = bufferAddress s1" "audioBuffer s' = audioBuffer s1"
    "trace s' = trace s1 @ ?rest"
    by (auto simp: begin_driver_def Let_def volatile_read_def)
  have "writes_to I2S_ENABLE ([Println ''Configuring I2S peripheral...''] @ out @ ?rest)
          = [Lit 0, Lit 1]"
    using w by (simp add: writes_to_Cons)
  moreover have "trace s' = trace s @ [Println ''Configuring I2S peripheral...''] @ out @ ?rest"
    using s'(5) t by simp
  ultimately have "\<exists>out. trace s' = trace s @ out \<and> writes_to I2S_ENABLE out = [Lit 0, Lit 1]"
    by blast
  with ok s' f show ?thesis by (simp add: same_flags_def)
qed

lemma begin_driver_returns:
  assumes "clock_starts hw (reads s)"
  shows "\<exists>s'. begin_driver hw s = Some (True, s')"
proof (cases "initialized s")
  case True
  then show ?thesis by (simp add: begin_driver_initialized)
next
  case False
  from assms have "clock_starts hw (reads (emit [Println ''Configuring I2S peripheral...''] s))"
    by simp
  from configureI2S_returns [OF this] obtain s1 where
    "configureI2S hw (emit [Println ''Configuring I2S peripheral...''] s) = Some s1" by blast
  with False show ?thesis
    by (simp add: begin_driver_def Let_def volatile_read_def)
qed

text \<open>
  Claim C9. \<open>begin\<close> never answers false. On an initialized driver it returns true having
  only printed a line: no register is stored to and no field of the driver changes. On
  a driver not yet initialized, once the oracle shows the high-frequency clock as started
  (the wait for it has no deadline), it returns true with the driver initialized, the
  peripheral disabled and then enabled (the last store to \<open>ENABLE\<close> is 1).
\<close>

theorem begin_returns_true:
  "(\<forall>ok s'. begin_driver hw s = Some (ok, s') \<longrightarrow> ok)
   \<and> (initialized s \<longrightarrow>
        begin_driver hw s = Some (True, s\<lparr>trace := trace s @ [Println ''I2S already initialized'']\<rparr>))
   \<and> (\<not> initialized s \<and> clock_starts hw (reads s) \<longrightarrow>
        (\<exists>s'. begin_driver hw s = Some (True, s') \<and> initialized s'
              \<and> writes_to I2S_ENABLE (emitted s s') = [Lit 0, Lit 1]))"
proof (intro conjI allI impI)
  fix ok s'
  assume r: "begin_driver hw s = Some (ok, s')"
  show ok
  proof (cases "initialized s")
    case True
    with r show ?thesis by (simp add: begin_driver_initialized)
  next
    case False
    from begin_driver_first [OF False r] show ?thesis by blast
  qed
next
  assume "initialized s"
  then show "begin_driver hw s
               = Some (True, s\<lparr>trace := trace s @ [Println ''I2S already initialized'']\<rparr>)"
    by (simp add: begin_driver_initialized emit_def)
next
  assume a: "\<not> initialized s \<and> clock_starts hw (reads s)"
  then obtain s' where r: "begin_driver hw s = Some (True, s')"
    using begin_driver_returns by blast
  from begin_driver_first [OF _ r] a obtain out where
    "initialized s'" "trace s' = trace s @ out" "writes_to I2S_ENABLE out = [Lit 0, Lit 1]"
    by blast
  with r show "\<exists>s'. begin_driver hw s = Some (True, s') \<and> initialized s'
              \<and> writes_to I2S_ENABLE (emitted s s') = [Lit 0, Lit 1]"
    by (auto simp: emitted_def)
qed

theorem begin_returns_true_witness:
  "\<not> initialized (new_driver (\<lambda>i. 0) 0)
   \<and> clock_starts prompt_hw (reads (new_driver (\<lambda>i. 0) 0))
   \<and> (\<exists>s'. begin_driver prompt_hw (new_driver (\<lambda>i. 0) 0) = Some (True, s') \<and> initialized s'
         \<and> begin_driver prompt_hw s'
             = Some (True, s'\<lparr>trace := trace s' @ [Println ''I2S already initialized'']\<rparr>))"
proof -
  let ?s = "new_driver (\<lambda>i. 0) 0"
  have h1: "\<not> initialized ?s" by (simp add: new_driver_def)
  have h2: "clock_starts prompt_hw (reads ?s)"
    by (simp add: clock_starts_def prompt_hw_def)
  from begin_returns_true [of prompt_hw ?s] h1 h2 obtain s' where
    r: "begin_driver prompt_hw ?s = Some (True, s')" and i: "initialized s'"
    by blast
  from begin_returns_true [of prompt_hw s'] i have
    "begin_driver prompt_hw s'
       = Some (True, s'\<lparr>trace := trace s' @ [Println ''I2S already initialized'']\<rparr>)"
    by blast
  with r i h1 h2 show ?thesis by blast
qed

subsection \<open>The playing flag\<close>

lemma playMelody_loop_done:
  "\<not> i < unat count \<Longrightarrow> playMelody_loop hw fs ds count v i s = Some s"
  by (subst playMelody_loop.simps) simp

lemma playMelody_loop_step:
  "i < unat count \<Longrightarrow>
   playMelody_loop hw fs ds count v i s =
     (case playTone hw (fs i) (ds i) v s of
        None \<Rightarrow> None
      | Some s' \<Rightarrow> playMelody_loop hw fs ds count v (Suc i) (emit [Delay 20] s'))"
  by (subst playMelody_loop.simps) simp

lemma playMelody_loop_idle:
  "playMelody_loop hw fs ds count v i s = Some s' \<Longrightarrow> \<not> playing s \<Longrightarrow> \<not> playing s'"
proof (induction "unat count - i" arbitrary: i s)
  case 0
  then show ?case by (simp add: playMelody_loop_done)
next
  case (Suc k)
  from Suc.hyps(2) have lt: "i < unat count" by simp
  from Suc.prems(1) obtain s1 where
    p: "playTone hw (fs i) (ds i) v s = Some s1"
    and r: "playMelody_loop hw fs ds count v (Suc i) (emit [Delay 20] s1) = Some s'"
    by (auto simp: playMelody_loop_step [OF lt] split: option.splits)
  from playTone_idle [OF p Suc.prems(2)] have "\<not> playing (emit [Delay 20] s1)" by simp
  moreover from Suc.hyps(2) have "k = unat count - Suc i" by simp
  ultimately show ?case using Suc.hyps(1) r by blast
qed

lemma stop_idle: "stop hw s = Some s' \<Longrightarrow> \<not> playing s \<Longrightarrow> \<not> playing s'"
  by (auto simp: stop_def split: if_splits option.splits)

lemma suspend_idle: "suspend hw s = Some s' \<Longrightarrow> \<not> playing s \<Longrightarrow> \<not> playing s'"
  by (auto simp: suspend_def split: if_splits option.splits dest!: stop_idle)

lemma resume_idle: "\<not> playing s \<Longrightarrow> \<not> playing (resume s)"
  by (simp add: resume_def)

lemma begin_driver_idle:
  assumes "begin_driver hw s = Some (ok, s')" and "\<not> playing s"
  shows "\<not> playing s'"
proof (cases "initialized s")
  case True
  with assms show ?thesis by (auto simp: begin_driver_initialized)
next
  case False
  from begin_driver_first [OF False assms(1)] assms(2) show ?thesis by simp
qed

lemma reachable_new: "reachable hw (new_driver mem addr)"
  using reachable.fresh [where fp = "fpu (new_driver mem addr)" and mem = mem and addr = addr]
  by simp

lemma reachable_idle: "reachable hw s \<Longrightarrow> \<not> playing s"
proof (induction rule: reachable.induct)
  case (fresh fp mem addr)
  show ?case by (simp add: new_driver_def)
next
  case (after_begin s ok s')
  then show ?case by (blast dest: begin_driver_idle)
next
  case (after_playTone s f d v s')
  then show ?case by (blast dest: playTone_idle)
next
  case (after_playMelody s fs ds n v s')
  then show ?case unfolding playMelody_def by (blast dest: playMelody_loop_idle)
next
  case (after_stop s s')
  then show ?case by (blast dest: stop_idle)
next
  case (after_suspend s s')
  then show ?case by (blast dest: suspend_idle)
next
  case (after_resume s)
  then show ?case by (simp add: resume_idle)
qed

text \<open>
  Claim C5. Whatever the arguments, \<open>playTone\<close> on a driver that is not initialized
  returns at once: all it does is print the error line. It stores to no register, the
  buffer and every other field stay as they were, so \<open>isPlaying\<close> answers as before the
  call: false, in every state the driver can be in between two calls.
\<close>

theorem playTone_before_begin:
  assumes "\<not> initialized s"
  shows "\<exists>s'. playTone hw f d v s = Some s'
           \<and> s' = s\<lparr>trace := trace s @ [Println ''ERROR: I2S not initialized'']\<rparr>
           \<and> emitted s s' = [Println ''ERROR: I2S not initialized'']
           \<and> list_all (\<lambda>e. \<not> is_reg_write e) (emitted s s')
           \<and> audioBuffer s' = audioBuffer s
           \<and> isPlaying s' = isPlaying s
           \<and> (reachable hw s \<longrightarrow> \<not> isPlaying s')"
  using assms reachable_idle [of hw s]
  by (simp add: playTone_uninitialized emit_def emitted_def isPlaying_def is_reg_write_def)

theorem playTone_before_begin_witness:
  "\<not> initialized (new_driver (\<lambda>i. 0) 0)
   \<and> reachable stalled_hw (new_driver (\<lambda>i. 0) 0)
   \<and> playTone stalled_hw 440 1000 50 (new_driver (\<lambda>i. 0) 0)
       = Some ((new_driver (\<lambda>i. 0) 0)\<lparr>trace := [Println ''ERROR: I2S not initialized'']\<rparr>)
   \<and> \<not> isPlaying (the (playTone stalled_hw 440 1000 50 (new_driver (\<lambda>i. 0) 0)))"
proof -
  have h: "\<not> initialized (new_driver (\<lambda>i. 0) 0)" by (simp add: new_driver_def)
  have r: "reachable stalled_hw (new_driver (\<lambda>i. 0) 0)" by (rule reachable_new)
  from playTone_before_begin [OF h, of stalled_hw 440 1000 50] h r show ?thesis
    by (auto simp: new_driver_def)
qed

lemma playTone_loop_playing:
  "playTone_loop hw f v t s = Some s' \<Longrightarrow> playing s' = playing s"
  using playTone_loop_effects [of hw f v t s s'] by (simp add: same_flags_def)

lemma waitForCompletion_times_out:
  assumes "spins hw I2S_EVENTS_TXPTRUPD (hw (reads s) Millis + 50) (Suc (reads s)) k"
    and "hw (Suc (reads s) + 2 * k) (RegRead I2S_EVENTS_TXPTRUPD) = 0"
    and "hw (reads s) Millis + 50 < hw (Suc (reads s) + 2 * k + 1) Millis"
  shows "waitForCompletion hw n s =
     Some (s\<lparr>reads := reads s + 2 * k + 4,
             trace := trace s @ replicate k Yield
               @ timeout_report ''ERROR: I2S TXPTRUPD timeout!''
                   (uint (hw (reads s + 2 * k + 3) (RegRead I2S_ENABLE)))\<rparr>)"
proof -
  let ?s1 = "s\<lparr>reads := Suc (reads s)\<rparr>"
  from assms have
    "poll_event hw I2S_EVENTS_TXPTRUPD ''ERROR: I2S TXPTRUPD timeout!''
       (hw (reads s) Millis + 50) ?s1
     = Some (False, ?s1\<lparr>reads := reads ?s1 + 2 * k + 3,
           trace := trace ?s1 @ replicate k Yield
             @ [Println ''ERROR: I2S TXPTRUPD timeout!'', Print ''I2S ENABLE: '',
                PrintlnNum (uint (hw (reads ?s1 + 2 * k + 2) (RegRead I2S_ENABLE)))]\<rparr>)"
    by (intro poll_event_timeout_after) simp_all
  moreover have "reads ?s1 + 2 * k + 3 = reads s + 2 * k + 4"
    "reads ?s1 + 2 * k + 2 = reads s + 2 * k + 3"
    by simp_all
  ultimately show ?thesis
    by (simp only: waitForCompletion_unfold timeout_report_def) simp
qed

lemma stalled_wait:
  assumes "reads s = 0"
  shows "\<exists>s'. waitForCompletion stalled_hw n s = Some s'
           \<and> Println ''ERROR: I2S TXPTRUPD timeout!'' \<in> set (trace s')"
proof -
  have h1: "spins stalled_hw I2S_EVENTS_TXPTRUPD (stalled_hw (reads s) Millis + 50) (Suc (reads s)) 2"
    using assms by (auto simp add: spins_def stalled_hw_def less_2_cases_iff)
  have h2: "stalled_hw (Suc (reads s) + 2 * 2) (RegRead I2S_EVENTS_TXPTRUPD) = 0"
    by (simp add: stalled_hw_def)
  have h3: "stalled_hw (reads s) Millis + 50 < stalled_hw (Suc (reads s) + 2 * 2 + 1) Millis"
    using assms by (simp add: stalled_hw_def)
  from waitForCompletion_times_out [OF h1 h2 h3, of n] show ?thesis
    by (simp add: timeout_report_def)
qed

lemma stalled_playTone:
  "\<exists>s'. playTone stalled_hw 440 1 50 ready_driver = Some s'
         \<and> Println ''ERROR: I2S TXPTRUPD timeout!'' \<in> set (trace s')"
proof -
  let ?s2 = "(emit (announce 440 1 50) ready_driver)\<lparr>playing := True\<rparr>"
  let ?sb = "startTransfer 16 (generateTone 440 16 50 ?s2)"
  have t: "total_samples 1 = 16"
    by (simp add: total_samples_def clamped_duration_1 SAMPLE_RATE_def)
  have c: "chunk_of 16 = 16"
    by (simp add: chunk_of_def AUDIO_BUFFER_SIZE_def)
  have "reads ?sb = 0" using generateTone_flags [of ?s2 440 16 50] by simp
  from stalled_wait [OF this] obtain s1 where
    w: "waitForCompletion stalled_hw 16 ?sb = Some s1"
    and e: "Println ''ERROR: I2S TXPTRUPD timeout!'' \<in> set (trace s1)"
    by blast
  have "playTone_loop stalled_hw 440 50 16 ?s2 = Some s1"
    using w by (simp add: playTone_loop_step [of 16] c playTone_loop_done)
  then have "playTone stalled_hw 440 1 50 ready_driver = Some (s1\<lparr>playing := False\<rparr>)"
    by (simp add: playTone_unfold t)
  with e show ?thesis by simp
qed

text \<open>
  Claim C7. Whenever \<open>playTone\<close> returns on an initialized driver, \<open>isPlaying\<close> is false
  afterwards, whichever way the waits inside the chunk loop ended: a wait that times out
  returns to the loop, which goes on to its end and to the reset of the flag. The chunk
  loop itself leaves the flag as it found it (set). Before the flag is set the only
  return is the one of a driver not initialized, which leaves the flag as it was. The
  call does return when every bounded wait ends. And between two calls of the driver's
  operations the flag is never set.
\<close>

theorem playTone_restores_idle:
  "(\<forall>s'. playTone hw f d v s = Some s' \<and> initialized s \<longrightarrow> \<not> isPlaying s')
   \<and> (\<forall>s'. playTone hw f d v s = Some s' \<and> \<not> initialized s \<longrightarrow> isPlaying s' = isPlaying s)
   \<and> (\<forall>t s0 s1. playTone_loop hw f v t s0 = Some s1 \<longrightarrow> playing s1 = playing s0)
   \<and> (bounded_waits_end hw \<longrightarrow> (\<exists>s'. playTone hw f d v s = Some s'))
   \<and> (reachable hw s \<longrightarrow> \<not> isPlaying s)"
proof (intro conjI allI impI)
  fix s'
  assume "playTone hw f d v s = Some s' \<and> initialized s"
  then show "\<not> isPlaying s'"
    using playTone_effects [of s hw f d v s'] by (simp add: isPlaying_def)
next
  fix s'
  assume "playTone hw f d v s = Some s' \<and> \<not> initialized s"
  then show "isPlaying s' = isPlaying s"
    by (auto simp: playTone_uninitialized isPlaying_def)
next
  fix t s0 s1
  assume "playTone_loop hw f v t s0 = Some s1"
  then show "playing s1 = playing s0" by (rule playTone_loop_playing)
next
  assume "bounded_waits_end hw"
  then show "\<exists>s'. playTone hw f d v s = Some s'" by (rule playTone_returns)
next
  assume "reachable hw s"
  then show "\<not> isPlaying s" by (simp add: isPlaying_def reachable_idle)
qed

theorem playTone_restores_idle_witness:
  "initialized ready_driver
   \<and> (\<exists>s'. playTone stalled_hw 440 1 50 ready_driver = Some s'
         \<and> Println ''ERROR: I2S TXPTRUPD timeout!'' \<in> set (trace s')
         \<and> \<not> isPlaying s')
   \<and> bounded_waits_end prompt_hw
   \<and> (\<exists>s'. playTone prompt_hw 440 1 50 ready_driver = Some s' \<and> \<not> isPlaying s')
   \<and> reachable prompt_hw (new_driver (\<lambda>i. 0) 0)
   \<and> \<not> isPlaying (new_driver (\<lambda>i. 0) 0)"
proof -
  have h: "initialized ready_driver" by simp
  from stalled_playTone obtain s1 where
    r1: "playTone stalled_hw 440 1 50 ready_driver = Some s1"
    and e1: "Println ''ERROR: I2S TXPTRUPD timeout!'' \<in> set (trace s1)"
    by blast
  from playTone_restores_idle [of stalled_hw 440 1 50 ready_driver] r1 h
  have i1: "\<not> isPlaying s1" by blast
  from playTone_restores_idle [of prompt_hw 440 1 50 ready_driver] prompt_hw_ends h
  have p: "\<exists>s'. playTone prompt_hw 440 1 50 ready_driver = Some s' \<and> \<not> isPlaying s'"
    by blast
  have re: "reachable prompt_hw (new_driver (\<lambda>i. 0) 0)" by (rule reachable_new)
  from playTone_restores_idle [of prompt_hw 440 1 50 "new_driver (\<lambda>i. 0) 0"] re
  have "\<not> isPlaying (new_driver (\<lambda>i. 0) 0)" by blast
  with h r1 e1 i1 p re prompt_hw_ends show ?thesis by blast
qed

subsection \<open>playMelody\<close>

lemma announce_counts:
  "count_list (announce f d v) (Print ''Playing tone: '') = 1"
  "count_list (announce f d v) (Delay 20) = 0"
  by (simp_all add: announce_def)

lemma playTone_counts:
  assumes "initialized s" and "playTone hw f d v s = Some s'"
  shows "initialized s' \<and> (\<exists>out. trace s' = trace s @ out
           \<and> count_list out (Print ''Playing tone: '') = 1
           \<and> count_list out (Delay 20) = 0)"
proof -
  from playTone_effects [OF assms] obtain out where
    i: "initialized s'" and t: "trace s' = trace s @ announce f d v @ out"
    and c: "chunk_rounds (chunk_list (unat (total_samples d))) out"
    by blast
  from c have "count_list out (Print ''Playing tone: '') = 0" "count_list out (Delay 20) = 0"
    by (simp_all add: chunk_rounds_def)
  then have "count_list (announce f d v @ out) (Print ''Playing tone: '') = 1"
    "count_list (announce f d v @ out) (Delay 20) = 0"
    by (simp_all add: announce_counts)
  with i t show ?thesis by blast
qed

lemma playMelody_loop_counts:
  "initialized s \<Longrightarrow> playMelody_loop hw fs ds count v i s = Some s' \<Longrightarrow>
   \<exists>out. trace s' = trace s @ out
     \<and> count_list out (Print ''Playing tone: '') = unat count - i
     \<and> count_list out (Delay 20) = unat count - i
     \<and> (i < unat count \<longrightarrow> last out = Delay 20)"
proof (induction "unat count - i" arbitrary: i s)
  case 0
  then have "s' = s" by (simp add: playMelody_loop_done)
  with "0.hyps" show ?case by simp
next
  case (Suc k)
  from Suc.hyps(2) have lt: "i < unat count" by simp
  from Suc.prems(2) obtain s1 where
    p: "playTone hw (fs i) (ds i) v s = Some s1"
    and r: "playMelody_loop hw fs ds count v (Suc i) (emit [Delay 20] s1) = Some s'"
    by (auto simp: playMelody_loop_step [OF lt] split: option.splits)
  from playTone_counts [OF Suc.prems(1) p] obtain o1 where
    i1: "initialized s1" and t1: "trace s1 = trace s @ o1"
    and c1: "count_list o1 (Print ''Playing tone: '') = 1" "count_list o1 (Delay 20) = 0"
    by blast
  from Suc.hyps(2) have k: "k = unat count - Suc i" by simp
  from i1 have "initialized (emit [Delay 20] s1)" by simp
  from Suc.hyps(1) [OF k this r] obtain o2 where
    t2: "trace s' = trace (emit [Delay 20] s1) @ o2"
    and c2: "count_list o2 (Print ''Playing tone: '') = unat count - Suc i"
      "count_list o2 (Delay 20) = unat count - Suc i"
    and l2: "Suc i < unat count \<longrightarrow> last o2 = Delay 20"
    by blast
  let ?out = "o1 @ [Delay 20] @ o2"
  have tr: "trace s' = trace s @ ?out" using t1 t2 by simp
  have n1: "count_list ?out (Print ''Playing tone: '') = unat count - i"
    using c1 c2 lt by simp
  have n2: "count_list ?out (Delay 20) = unat count - i"
    using c1 c2 lt by simp
  have "last ?out = Delay 20"
  proof (cases "Suc i < unat count")
    case True
    with c2(2) have "o2 \<noteq> []" by auto
    with l2 True show ?thesis by simp
  next
    case False
    with c2(2) have "count_list o2 (Delay 20) = 0" by simp
    with False r have "s' = emit [Delay 20] s1" by (simp add: playMelody_loop_done)
    with t2 have "o2 = []" by simp
    then show ?thesis by simp
  qed
  with tr n1 n2 show ?case by blast
qed

lemma playMelody_loop_returns:
  assumes "bounded_waits_end hw"
  shows "\<exists>s'. playMelody_loop hw fs ds count v i s = Some s'"
proof (induction "unat count - i" arbitrary: i s)
  case 0
  then show ?case by (simp add: playMelody_loop_done)
next
  case (Suc k)
  from Suc.hyps(2) have lt: "i < unat count" by simp
  from playTone_returns [OF assms] obtain s1 where
    p: "playTone hw (fs i) (ds i) v s = Some s1" by blast
  from Suc.hyps(2) have "k = unat count - Suc i" by simp
  from Suc.hyps(1) [OF this, of "emit [Delay 20] s1"] p show ?case
    by (simp add: playMelody_loop_step [OF lt])
qed

text \<open>
  Claim C1 at a melody of two notes on an initialized driver whose events are seen at
  once: the call returns having announced two tones, and it has called \<open>delay(20)\<close> twice,
  not once; the last thing it did is the \<open>delay(20)\<close> after the second, last note.
\<close>

theorem playMelody_gap_after_last_note:
  "\<exists>s'. playMelody prompt_hw two_notes short_notes 2 50 ready_driver = Some s'
     \<and> count_list (trace s') (Print ''Playing tone: '') = 2
     \<and> count_list (trace s') (Delay 20) = 2
     \<and> last (trace s') = Delay 20"
proof -
  from playMelody_loop_returns [OF prompt_hw_ends] obtain s' where
    r: "playMelody_loop prompt_hw two_notes short_notes 2 50 0 ready_driver = Some s'"
    by blast
  have "initialized ready_driver" by simp
  from playMelody_loop_counts [OF this r] have
    "count_list (trace s') (Print ''Playing tone: '') = 2
     \<and> count_list (trace s') (Delay 20) = 2
     \<and> last (trace s') = Delay 20"
    by auto
  with r show ?thesis by (simp add: playMelody_def)
qed

end
